theory Spec2Isabelle
  imports Main "HOL-Library.Multiset"
begin

section \<open>Run-time faults\<close>

text \<open>
  The Go program has no error returns: what goes wrong is a run-time panic of the
  goroutine that hits it (which ends the whole process) or the run-time's detection
  that every goroutine is blocked. Both are values of the model.
\<close>

datatype fault =
    SliceBoundsOutOfRange
  | IndexOutOfRange
  | IntegerDivideByZero
  | InvalidArgumentToIntn
  | AllGoroutinesAsleep

section \<open>Prefix\<close>

text \<open>
  \<^verbatim>\<open>type Prefix []string\<close>. The lengths and counts of the program (\<^verbatim>\<open>prefixLen\<close>,
  \<^verbatim>\<open>workers\<close>, \<^verbatim>\<open>inserters\<close>, \<^verbatim>\<open>n\<close>) are Go \<^verbatim>\<open>int\<close>s and natural numbers here: a
  negative \<^verbatim>\<open>prefixLen\<close> panics in \<^verbatim>\<open>make(Prefix, prefixLen)\<close>, a negative \<^verbatim>\<open>workers\<close> in
  \<^verbatim>\<open>wg.Add(workers)\<close> or \<^verbatim>\<open>make(chan pair, workers)\<close>, a negative \<^verbatim>\<open>inserters\<close> leaves
  the channel without receiver, and a negative \<^verbatim>\<open>n\<close> is an empty loop as 0 is. A token
  sequence is the result of \<^verbatim>\<open>strings.Fields\<close>, whose capacity equals its length, so a
  slice expression on it is in range exactly when its bounds are within the length.
\<close>

type_synonym Prefix = "string list"

text \<open>\<^verbatim>\<open>strings.Join(elems, sep)\<close>.\<close>

fun Join :: "string list \<Rightarrow> string \<Rightarrow> string" where
  "Join [] sep = []"
| "Join [x] sep = x"
| "Join (x # y # ys) sep = x @ sep @ Join (y # ys) sep"

definition Prefix_String :: "Prefix \<Rightarrow> string" where
  "Prefix_String p = Join p '' ''"

text \<open>The built-in \<^verbatim>\<open>copy(dst, src)\<close>: the first \<open>min (len dst) (len src)\<close> elements of
  \<open>src\<close> overwrite those of \<open>dst\<close>.\<close>

definition copy_go :: "'a list \<Rightarrow> 'a list \<Rightarrow> 'a list" where
  "copy_go dst src =
     (let k = min (length dst) (length src) in take k src @ drop k dst)"

text \<open>
  \<^verbatim>\<open>func (p Prefix) Shift(word string) { copy(p, p[1:]); p[len(p)-1] = word }\<close>.
  The slice expression \<^verbatim>\<open>p[1:]\<close> panics when \<open>p\<close> is empty. The mutation in place
  is the returned value.
\<close>

definition Prefix_Shift :: "Prefix \<Rightarrow> string \<Rightarrow> fault + Prefix" where
  "Prefix_Shift p word =
     (if length p < 1 then Inl SliceBoundsOutOfRange
      else Inr ((copy_go p (drop 1 p))[length p - 1 := word]))"

text \<open>\<^verbatim>\<open>make(Prefix, prefixLen)\<close>: \<open>prefixLen\<close> empty strings.\<close>

definition make_Prefix :: "nat \<Rightarrow> Prefix" where
  "make_Prefix prefixLen = replicate prefixLen []"

text \<open>The spec's wording of the serialization: the tokens, joined by a single space.\<close>

definition joined_by_single_space :: "string list \<Rightarrow> string" where
  "joined_by_single_space ts =
     (case ts of [] \<Rightarrow> [] | t # rest \<Rightarrow> t @ concat (map (\<lambda>u. CHR '' '' # u) rest))"

section \<open>Chain\<close>

text \<open>
  \<^verbatim>\<open>type Chain struct { chain sync.Map; prefixLen int }\<close>. The \<^verbatim>\<open>sync.Map\<close> holds
  \<^verbatim>\<open>[]string\<close> values under \<^verbatim>\<open>string\<close> keys; its operations are the three the
  program uses.
\<close>

type_synonym table = "string \<rightharpoonup> string list"

record Chain =
  chain :: table
  prefixLen :: nat

definition NewChain :: "nat \<Rightarrow> Chain" where
  "NewChain n = \<lparr>chain = Map.empty, prefixLen = n\<rparr>"

definition Load :: "table \<Rightarrow> string \<Rightarrow> string list option" where
  "Load m key = m key"

definition Delete :: "table \<Rightarrow> string \<Rightarrow> table" where
  "Delete m key = m(key := None)"

text \<open>\<^verbatim>\<open>LoadOrStore\<close> returns the map, the actual value and whether it was loaded.\<close>

definition LoadOrStore :: "table \<Rightarrow> string \<Rightarrow> string list \<Rightarrow> table \<times> string list \<times> bool" where
  "LoadOrStore m key v =
     (case m key of Some actual \<Rightarrow> (m, actual, True) | None \<Rightarrow> (m(key \<mapsto> v), v, False))"

text \<open>The \<^verbatim>\<open>if values == nil ... else append\<close> of \<^verbatim>\<open>Insert\<close>.\<close>

definition append_word :: "string list option \<Rightarrow> string \<Rightarrow> string list" where
  "append_word values word = (case values of None \<Rightarrow> [] @ [word] | Some vs \<Rightarrow> vs @ [word])"

text \<open>
  The \<^verbatim>\<open>for notStored\<close> loop of \<^verbatim>\<open>Insert\<close>, run by one goroutine with no other
  goroutine touching the map: append, \<^verbatim>\<open>Delete\<close>, \<^verbatim>\<open>LoadOrStore\<close>, and again while
  the value was loaded rather than stored.
\<close>

function Insert_loop :: "table \<Rightarrow> string \<Rightarrow> string \<Rightarrow> string list option \<Rightarrow> table" where
  "Insert_loop m key word values =
     (case LoadOrStore (Delete m key) key (append_word values word) of
        (m2, actual, notStored) \<Rightarrow>
          if notStored then Insert_loop m2 key word (Some actual) else m2)"
  by pat_completeness auto
termination
  by (relation "{}") (auto simp: LoadOrStore_def Delete_def)

declare Insert_loop.simps [simp del]

definition Insert :: "table \<Rightarrow> string \<Rightarrow> string \<Rightarrow> table" where
  "Insert m key word = Insert_loop m key word (Load m key)"

text \<open>\<^verbatim>\<open>lookup(key)\<close> of the spec, with the absent key read as the empty collection.\<close>

definition collection :: "table \<Rightarrow> string \<Rightarrow> string list" where
  "collection m key = (case Load m key of None \<Rightarrow> [] | Some vs \<Rightarrow> vs)"

text \<open>Per-key successor multiset and the number of stored successors over all keys.\<close>

definition successors :: "table \<Rightarrow> string \<Rightarrow> string multiset" where
  "successors m key = mset (collection m key)"

definition insertions :: "table \<Rightarrow> nat" where
  "insertions m = (\<Sum>key \<in> dom m. length (the (m key)))"

text \<open>A built table: what calls of \<^verbatim>\<open>Insert\<close> make of the empty \<^verbatim>\<open>sync.Map\<close>.\<close>

inductive built :: "table \<Rightarrow> bool" where
  built_empty: "built Map.empty"
| built_Insert: "built m \<Longrightarrow> built (Insert m key word)"

code_pred built .

section \<open>Slices and goroutine work\<close>

text \<open>\<^verbatim>\<open>xs[lo:hi]\<close> and \<^verbatim>\<open>xs[i]\<close> with Go's bounds checks; the index is a Go \<^verbatim>\<open>int\<close>.\<close>

definition slice_go :: "'a list \<Rightarrow> nat \<Rightarrow> nat \<Rightarrow> fault + 'a list" where
  "slice_go xs lo hi =
     (if lo \<le> hi \<and> hi \<le> length xs then Inr (take (hi - lo) (drop lo xs))
      else Inl SliceBoundsOutOfRange)"

definition index_go :: "'a list \<Rightarrow> int \<Rightarrow> fault + 'a" where
  "index_go xs i =
     (if 0 \<le> i \<and> i < int (length xs) then Inr (xs ! nat i) else Inl IndexOutOfRange)"

text \<open>\<^verbatim>\<open>type pair struct { a, b string }\<close>: a key and a word.\<close>

type_synonym pair = "string \<times> string"

definition ins :: "table \<Rightarrow> pair \<Rightarrow> table" where
  "ins m kw = Insert m (fst kw) (snd kw)"

text \<open>
  The loop of \<^verbatim>\<open>Build\<close>, case 1, which is also the seeding loop of \<^verbatim>\<open>BuildGoLock\<close>:
  \<^verbatim>\<open>for _, word := range words { key := p.String(); c.Insert(key, word); p.Shift(word) }\<close>.
\<close>

fun Build_loop :: "table \<Rightarrow> Prefix \<Rightarrow> string list \<Rightarrow> fault + table" where
  "Build_loop m p [] = Inr m"
| "Build_loop m p (word # words) =
     (let key = Prefix_String p; m' = Insert m key word
      in case Prefix_Shift p word of
           Inl e \<Rightarrow> Inl e
         | Inr p' \<Rightarrow> Build_loop m' p' words)"

text \<open>
  The same loop where the body sends \<^verbatim>\<open>pair{key, word}\<close> to the channel, or belongs to a
  partition worker: the pairs it publishes or inserts, in order.
\<close>

fun scan_pairs :: "Prefix \<Rightarrow> string list \<Rightarrow> fault + pair list" where
  "scan_pairs p [] = Inr []"
| "scan_pairs p (word # words) =
     (let key = Prefix_String p
      in case Prefix_Shift p word of
           Inl e \<Rightarrow> Inl e
         | Inr p' \<Rightarrow>
             (case scan_pairs p' words of
                Inl e \<Rightarrow> Inl e
              | Inr ps \<Rightarrow> Inr ((key, word) # ps)))"

text \<open>A panic in any goroutine ends the process: the first fault of a list of results.\<close>

fun collect :: "(fault + 'a) list \<Rightarrow> fault + 'a list" where
  "collect [] = Inr []"
| "collect (Inl e # rs) = Inl e"
| "collect (Inr x # rs) = (case collect rs of Inl e \<Rightarrow> Inl e | Inr xs \<Rightarrow> Inr (x # xs))"

text \<open>
  The goroutine of \<^verbatim>\<open>BuildGo*\<close> for position \<open>idx\<close>:
  \<^verbatim>\<open>key := strings.Join(words[idx-c.prefixLen:idx], " ")\<close> and the word \<^verbatim>\<open>words[idx]\<close>.
  The loop that starts the goroutines runs \<open>idx\<close> from \<open>prefixLen\<close> up.
\<close>

definition go_task :: "nat \<Rightarrow> string list \<Rightarrow> nat \<Rightarrow> fault + pair" where
  "go_task L words idx =
     (case slice_go words (idx - L) idx of
        Inl e \<Rightarrow> Inl e
      | Inr window \<Rightarrow>
          (case index_go words (int idx) of
             Inl e \<Rightarrow> Inl e
           | Inr word \<Rightarrow> Inr (Join window '' '', word)))"

text \<open>
  Partition arithmetic of \<^verbatim>\<open>BuildTP*\<close>: \<^verbatim>\<open>perWorker := len(words) / workers\<close>, one more
  when the division leaves a remainder; worker \<open>i\<close> gets
  \<^verbatim>\<open>start := perWorker * i\<close> and \<^verbatim>\<open>end := min(perWorker*(i+1), len(words))\<close>.
  The division by zero workers is a panic of the three functions that divide.
\<close>

definition perWorker :: "nat \<Rightarrow> nat \<Rightarrow> nat" where
  "perWorker n workers =
     (if n mod workers \<noteq> 0 then n div workers + 1 else n div workers)"

definition seg_start :: "nat \<Rightarrow> nat \<Rightarrow> nat \<Rightarrow> nat" where
  "seg_start n workers i = perWorker n workers * i"

definition seg_end :: "nat \<Rightarrow> nat \<Rightarrow> nat \<Rightarrow> nat" where
  "seg_end n workers i = min (perWorker n workers * (i + 1)) n"

text \<open>
  The worker's prefix: \<^verbatim>\<open>p := make(Prefix, c.prefixLen)\<close>, and when \<^verbatim>\<open>start != 0\<close>
  the loop \<^verbatim>\<open>p[idx] = words[start+idx-c.prefixLen]\<close> for \<open>idx\<close> from 0 below
  \<open>prefixLen\<close>.
\<close>

fun read_context :: "string list \<Rightarrow> nat \<Rightarrow> nat \<Rightarrow> nat list \<Rightarrow> Prefix \<Rightarrow> fault + Prefix" where
  "read_context words start L [] p = Inr p"
| "read_context words start L (idx # idxs) p =
     (case index_go words (int start + int idx - int L) of
        Inl e \<Rightarrow> Inl e
      | Inr w \<Rightarrow> read_context words start L idxs (p[idx := w]))"

definition init_Prefix :: "nat \<Rightarrow> string list \<Rightarrow> nat \<Rightarrow> fault + Prefix" where
  "init_Prefix L words start =
     (if start \<noteq> 0 then read_context words start L [0..<L] (make_Prefix L)
      else Inr (make_Prefix L))"

text \<open>The worker goroutine: its prefix, then the loop over \<^verbatim>\<open>words[start:end]\<close>.\<close>

definition tp_worker :: "nat \<Rightarrow> string list \<Rightarrow> nat \<Rightarrow> nat \<Rightarrow> fault + pair list" where
  "tp_worker L words start stop =
     (case init_Prefix L words start of
        Inl e \<Rightarrow> Inl e
      | Inr p \<Rightarrow>
          (case slice_go words start stop of
             Inl e \<Rightarrow> Inl e
           | Inr seg \<Rightarrow> scan_pairs p seg))"

definition tp_work :: "nat \<Rightarrow> string list \<Rightarrow> nat \<Rightarrow> fault + pair list list" where
  "tp_work L words workers =
     collect (map (\<lambda>i. tp_worker L words (seg_start (length words) workers i)
                                       (seg_end (length words) workers i))
                  [0..<workers])"

text \<open>
  The pair of the sequential scan at offset \<open>j\<close> in closed form: the key is the last
  \<open>L\<close> entries of \<open>L\<close> empty strings followed by the first \<open>j\<close> words. It is proved
  below to be what the loop of \<^verbatim>\<open>Build\<close> computes.
\<close>

definition sequential_pair :: "nat \<Rightarrow> string list \<Rightarrow> nat \<Rightarrow> pair" where
  "sequential_pair L words j =
     (Prefix_String (drop j (make_Prefix L @ take j words)), words ! j)"

section \<open>Goroutines on the shared map\<close>

text \<open>
  Each operation of \<^verbatim>\<open>sync.Map\<close> and each channel receive is one atomic step;
  a goroutine inside \<^verbatim>\<open>Insert\<close> is before its \<^verbatim>\<open>Delete\<close> (holding what it loaded)
  or before its \<^verbatim>\<open>LoadOrStore\<close> (holding what it will store). A goroutine that
  inserts directly has its pairs in \<open>todo\<close>; a consumer has none and receives from the
  channel.
\<close>

datatype point =
    Idle
  | Received pair
  | BeforeDelete pair "string list option"
  | BeforeLoadOrStore pair "string list"

type_synonym goroutine = "point \<times> pair list"

fun step_goroutine :: "table \<Rightarrow> pair list \<Rightarrow> goroutine \<Rightarrow> table \<times> pair list \<times> goroutine" where
  "step_goroutine m ch (Idle, kw # todo) =
     (m, ch, (BeforeDelete kw (Load m (fst kw)), todo))"
| "step_goroutine m (kw # ch) (Idle, []) = (m, ch, (Received kw, []))"
| "step_goroutine m [] (Idle, []) = (m, [], (Idle, []))"
| "step_goroutine m ch (Received kw, todo) =
     (m, ch, (BeforeDelete kw (Load m (fst kw)), todo))"
| "step_goroutine m ch (BeforeDelete kw vals, todo) =
     (Delete m (fst kw), ch, (BeforeLoadOrStore kw (append_word vals (snd kw)), todo))"
| "step_goroutine m ch (BeforeLoadOrStore kw vals, todo) =
     (case LoadOrStore m (fst kw) vals of
        (m2, actual, notStored) \<Rightarrow>
          (m2, ch, (if notStored then BeforeDelete kw (Some actual) else Idle, todo)))"

text \<open>A schedule names the goroutine that takes each next step.\<close>

fun run :: "nat list \<Rightarrow> table \<times> pair list \<times> goroutine list \<Rightarrow> table \<times> pair list \<times> goroutine list" where
  "run [] s = s"
| "run (g # sched) (m, ch, gs) =
     (if g < length gs
      then (case step_goroutine m ch (gs ! g) of
              (m', ch', g') \<Rightarrow> run sched (m', ch', gs[g := g']))
      else run sched (m, ch, gs))"

text \<open>
  After the schedule, the goroutines run to their end one after the other: the first
  finishes its \<^verbatim>\<open>Insert\<close>, its own pairs and whatever is left in the channel.
\<close>

fun finish_point :: "table \<Rightarrow> point \<Rightarrow> table" where
  "finish_point m Idle = m"
| "finish_point m (Received kw) = ins m kw"
| "finish_point m (BeforeDelete kw vals) = Insert_loop m (fst kw) (snd kw) vals"
| "finish_point m (BeforeLoadOrStore kw vals) =
     (case LoadOrStore m (fst kw) vals of
        (m2, actual, notStored) \<Rightarrow>
          if notStored then Insert_loop m2 (fst kw) (snd kw) (Some actual) else m2)"

fun finish_all :: "table \<Rightarrow> pair list \<Rightarrow> goroutine list \<Rightarrow> table" where
  "finish_all m ch [] = m"
| "finish_all m ch ((pt, todo) # gs) =
     finish_all (foldl ins (foldl ins (finish_point m pt) todo) ch) [] gs"

definition complete :: "nat list \<Rightarrow> table \<Rightarrow> pair list \<Rightarrow> goroutine list \<Rightarrow> table" where
  "complete steps m ch gs = (case run steps (m, ch, gs) of (m', ch', gs') \<Rightarrow> finish_all m' ch' gs')"

text \<open>
  The order in which the producers' sends reach the channel: a schedule picks the
  producer of each next send; what is left goes in producer order.
\<close>

fun interleave :: "nat list \<Rightarrow> 'a list list \<Rightarrow> 'a list" where
  "interleave [] qs = concat qs"
| "interleave (g # sched) qs =
     (if g < length qs
      then (case qs ! g of
              [] \<Rightarrow> interleave sched qs
            | x # q \<Rightarrow> x # interleave sched (qs[g := q]))
      else interleave sched qs)"

section \<open>Build\<close>

text \<open>
  \<^verbatim>\<open>BuildGoLock\<close>: the first \<open>prefixLen\<close> words are inserted by the calling goroutine,
  \<^verbatim>\<open>range words[:c.prefixLen]\<close>; then one goroutine per later position inserts its pair.
\<close>

definition BuildGoLock :: "Chain \<Rightarrow> string list \<Rightarrow> nat list \<Rightarrow> fault + Chain" where
  "BuildGoLock c words steps =
     (case slice_go words 0 (prefixLen c) of
        Inl e \<Rightarrow> Inl e
      | Inr seed \<Rightarrow>
          (case Build_loop (chain c) (make_Prefix (prefixLen c)) seed of
             Inl e \<Rightarrow> Inl e
           | Inr m \<Rightarrow>
               (case collect (map (go_task (prefixLen c) words) [prefixLen c..<length words]) of
                  Inl e \<Rightarrow> Inl e
                | Inr ps \<Rightarrow>
                    Inr (c\<lparr>chain := complete steps m [] (map (\<lambda>kw. (Idle, [kw])) ps)\<rparr>))))"

text \<open>
  The channel variants send the first \<open>prefixLen\<close> pairs from the calling goroutine into
  \<^verbatim>\<open>make(chan pair, 8)\<close> before any receiver exists: the ninth send blocks for ever.
\<close>

definition go_channel :: "Chain \<Rightarrow> string list \<Rightarrow> nat list \<Rightarrow> fault + pair list" where
  "go_channel c words sends =
     (case slice_go words 0 (prefixLen c) of
        Inl e \<Rightarrow> Inl e
      | Inr seed \<Rightarrow>
          (case scan_pairs (make_Prefix (prefixLen c)) seed of
             Inl e \<Rightarrow> Inl e
           | Inr seeds \<Rightarrow>
               if 8 < length seeds then Inl AllGoroutinesAsleep
               else (case collect (map (go_task (prefixLen c) words)
                                       [prefixLen c..<length words]) of
                       Inl e \<Rightarrow> Inl e
                     | Inr ps \<Rightarrow> Inr (seeds @ interleave sends (map (\<lambda>kw. [kw]) ps)))))"

text \<open>\<^verbatim>\<open>BuildGoChannel\<close>: one goroutine receives every pair and inserts it.\<close>

definition BuildGoChannel :: "Chain \<Rightarrow> string list \<Rightarrow> nat list \<Rightarrow> fault + Chain" where
  "BuildGoChannel c words sends =
     (case go_channel c words sends of
        Inl e \<Rightarrow> Inl e
      | Inr sent \<Rightarrow> Inr (c\<lparr>chain := foldl ins (chain c) sent\<rparr>))"

text \<open>
  \<^verbatim>\<open>BuildGoChannels\<close>: \<open>inserters\<close> goroutines receive and insert. With no inserter
  the sends beyond the channel's capacity never complete.
\<close>

definition BuildGoChannels :: "Chain \<Rightarrow> string list \<Rightarrow> nat \<Rightarrow> nat list \<Rightarrow> nat list \<Rightarrow> fault + Chain" where
  "BuildGoChannels c words inserters sends steps =
     (case go_channel c words sends of
        Inl e \<Rightarrow> Inl e
      | Inr sent \<Rightarrow>
          if inserters = 0 \<and> 8 < length sent then Inl AllGoroutinesAsleep
          else Inr (c\<lparr>chain := complete steps (chain c) sent (replicate inserters (Idle, []))\<rparr>))"

definition BuildGo :: "Chain \<Rightarrow> string list \<Rightarrow> nat \<Rightarrow> nat list \<Rightarrow> nat list \<Rightarrow> fault + Chain" where
  "BuildGo c words inserters sends steps =
     (if inserters = 0 then BuildGoLock c words steps
      else if inserters = 1 then BuildGoChannel c words sends
      else BuildGoChannels c words inserters sends steps)"

text \<open>
  \<^verbatim>\<open>BuildTPLock\<close>, \<^verbatim>\<open>BuildTPChannel\<close>, \<^verbatim>\<open>BuildTPChannels\<close>: the division
  \<^verbatim>\<open>len(words) / workers\<close> comes first; the workers insert directly, or send into
  \<^verbatim>\<open>make(chan pair, workers)\<close>.
\<close>

definition BuildTPLock :: "Chain \<Rightarrow> string list \<Rightarrow> nat \<Rightarrow> nat list \<Rightarrow> fault + Chain" where
  "BuildTPLock c words workers steps =
     (if workers = 0 then Inl IntegerDivideByZero
      else (case tp_work (prefixLen c) words workers of
              Inl e \<Rightarrow> Inl e
            | Inr qs \<Rightarrow>
                Inr (c\<lparr>chain := complete steps (chain c) [] (map (\<lambda>q. (Idle, q)) qs)\<rparr>)))"

definition BuildTPChannel :: "Chain \<Rightarrow> string list \<Rightarrow> nat \<Rightarrow> nat list \<Rightarrow> fault + Chain" where
  "BuildTPChannel c words workers sends =
     (if workers = 0 then Inl IntegerDivideByZero
      else (case tp_work (prefixLen c) words workers of
              Inl e \<Rightarrow> Inl e
            | Inr qs \<Rightarrow> Inr (c\<lparr>chain := foldl ins (chain c) (interleave sends qs)\<rparr>)))"

definition BuildTPChannels :: "Chain \<Rightarrow> string list \<Rightarrow> nat \<Rightarrow> nat \<Rightarrow> nat list \<Rightarrow> nat list \<Rightarrow> fault + Chain" where
  "BuildTPChannels c words workers inserters sends steps =
     (if workers = 0 then Inl IntegerDivideByZero
      else (case tp_work (prefixLen c) words workers of
              Inl e \<Rightarrow> Inl e
            | Inr qs \<Rightarrow>
                if inserters = 0 \<and> workers < length (concat qs) then Inl AllGoroutinesAsleep
                else Inr (c\<lparr>chain := complete steps (chain c) (interleave sends qs)
                                         (replicate inserters (Idle, []))\<rparr>)))"

definition BuildTP :: "Chain \<Rightarrow> string list \<Rightarrow> nat \<Rightarrow> nat \<Rightarrow> nat list \<Rightarrow> nat list \<Rightarrow> fault + Chain" where
  "BuildTP c words workers inserters sends steps =
     (if inserters = 0 then BuildTPLock c words workers steps
      else if inserters = 1 then BuildTPChannel c words workers sends
      else BuildTPChannels c words workers inserters sends steps)"

text \<open>
  \<^verbatim>\<open>Build\<close>: \<^verbatim>\<open>switch workers { case 1: ... case 0: BuildGo default: BuildTP }\<close>.
  The two schedules are the order of the sends and the order of the steps on the map.
\<close>

definition Build :: "Chain \<Rightarrow> string list \<Rightarrow> nat \<Rightarrow> nat \<Rightarrow> nat list \<Rightarrow> nat list \<Rightarrow> fault + Chain" where
  "Build c words workers inserters sends steps =
     (if workers = 1
      then (case Build_loop (chain c) (make_Prefix (prefixLen c)) words of
              Inl e \<Rightarrow> Inl e
            | Inr m \<Rightarrow> Inr (c\<lparr>chain := m\<rparr>))
      else if workers = 0 then BuildGo c words inserters sends steps
      else BuildTP c words workers inserters sends steps)"

section \<open>Generate\<close>

text \<open>
  \<^verbatim>\<open>Generate(n)\<close>: at most \<open>n\<close> rounds; \<open>rnd i\<close> is the random source's draw in round
  \<open>i\<close>, reduced by \<^verbatim>\<open>rand.Intn\<close> to an index below \<^verbatim>\<open>len(choices)\<close>, and
  \<^verbatim>\<open>rand.Intn(0)\<close> panics. The loop counts the rounds that remain.
\<close>

fun Generate_loop :: "table \<Rightarrow> (nat \<Rightarrow> nat) \<Rightarrow> nat \<Rightarrow> nat \<Rightarrow> Prefix \<Rightarrow> string list \<Rightarrow> fault + string list" where
  "Generate_loop m rnd i 0 p words = Inr words"
| "Generate_loop m rnd i (Suc k) p words =
     (case Load m (Prefix_String p) of
        None \<Rightarrow> Inr words
      | Some choices \<Rightarrow>
          if length choices = 0 then Inl InvalidArgumentToIntn
          else (let next = choices ! (rnd i mod length choices)
                in case Prefix_Shift p next of
                     Inl e \<Rightarrow> Inl e
                   | Inr p' \<Rightarrow> Generate_loop m rnd (Suc i) k p' (words @ [next])))"

definition Generate_words :: "Chain \<Rightarrow> nat \<Rightarrow> (nat \<Rightarrow> nat) \<Rightarrow> fault + string list" where
  "Generate_words c n rnd = Generate_loop (chain c) rnd 0 n (make_Prefix (prefixLen c)) []"

definition Generate :: "Chain \<Rightarrow> nat \<Rightarrow> (nat \<Rightarrow> nat) \<Rightarrow> fault + string" where
  "Generate c n rnd =
     (case Generate_words c n rnd of Inl e \<Rightarrow> Inl e | Inr words \<Rightarrow> Inr (Join words '' ''))"

section \<open>Prefix: facts\<close>

lemma drop_length_Cons: "drop (length xs) (x # xs) = [last (x # xs)]"
  by (induction xs arbitrary: x) simp_all

lemma copy_go_tail: "copy_go (x # xs) xs = xs @ [last (x # xs)]"
  by (simp add: copy_go_def drop_length_Cons del: last.simps)

lemma Prefix_Shift_nonempty: "p \<noteq> [] \<Longrightarrow> Prefix_Shift p w = Inr (tl p @ [w])"
proof (cases p)
  case Nil
  assume "p \<noteq> []"
  with Nil show ?thesis by simp
next
  case (Cons x xs)
  have "(copy_go (x # xs) xs)[length xs := w] = xs @ [w]"
    by (simp only: copy_go_tail list_update_length)
  then show ?thesis
    by (simp add: Prefix_Shift_def Cons)
qed

lemma Join_space: "Join ts '' '' = joined_by_single_space ts"
proof (induction ts "'' ''" rule: Join.induct)
  case 1
  show ?case by (simp add: joined_by_single_space_def)
next
  case (2 x)
  show ?case by (simp add: joined_by_single_space_def)
next
  case (3 x y ys)
  then show ?case by (simp add: joined_by_single_space_def)
qed

section \<open>Insert: facts\<close>

lemma Insert_loop_solo:
  "Insert_loop m key word values = m(key \<mapsto> append_word values word)"
  by (subst Insert_loop.simps) (simp add: LoadOrStore_def Delete_def)

lemma Insert_eq: "Insert m key word = m(key \<mapsto> collection m key @ [word])"
  by (simp add: Insert_def Insert_loop_solo append_word_def collection_def Load_def
      split: option.splits)

section \<open>Claims on Prefix and Insert\<close>

text \<open>
  C7. For every table state, key and token, \<^verbatim>\<open>Insert(key, token)\<close> appends the token to
  the collection stored at the key, creating a one-element collection if the key was
  absent; afterwards the lookup of the key returns the prior collection (or the empty
  one) extended by exactly one occurrence of the token.
\<close>

theorem Insert_appends_token:
  "Load (Insert m key word) key
     = Some (case Load m key of None \<Rightarrow> [word] | Some vs \<Rightarrow> vs @ [word])
   \<and> collection (Insert m key word) key = collection m key @ [word]
   \<and> successors (Insert m key word) key = successors m key + {#word#}"
  by (simp add: Insert_eq successors_def collection_def Load_def split: option.splits)

text \<open>
  C10. For every table state, keys \<open>key\<close> and \<open>key'\<close> with \<open>key'\<close> distinct from
  \<open>key\<close>, and every token, \<^verbatim>\<open>Insert(key, token)\<close> leaves the collection returned by the
  lookup of \<open>key'\<close> unchanged: an insert changes only the entry of its own key.
\<close>

theorem Insert_other_key_unchanged:
  "key' \<noteq> key \<Longrightarrow>
     Load (Insert m key word) key' = Load m key'
     \<and> collection (Insert m key word) key' = collection m key'"
  by (simp add: Insert_eq collection_def Load_def)

theorem Insert_other_key_unchanged_witness:
  "''am a'' \<noteq> ''I am''
   \<and> Load (Insert [''am a'' \<mapsto> [''free'']] ''I am'' ''not'') ''am a''
       = Load [''am a'' \<mapsto> [''free'']] ''am a''
   \<and> collection (Insert [''am a'' \<mapsto> [''free'']] ''I am'' ''not'') ''am a'' = [''free'']"
  using Insert_other_key_unchanged [of "''am a''" "''I am''" "[''am a'' \<mapsto> [''free'']]" "''not''"]
  by (simp add: collection_def Load_def)

text \<open>
  C9, as stated, for every Prefix of length \<open>prefixLen\<close>: it fails for \<open>prefixLen = 0\<close>,
  where \<^verbatim>\<open>Shift\<close> panics on the slice expression \<^verbatim>\<open>p[1:]\<close> instead of shifting.
\<close>

theorem Shift_empty_Prefix_panics:
  "length (make_Prefix 0) = 0
   \<and> Prefix_Shift (make_Prefix 0) ''man!'' = Inl SliceBoundsOutOfRange"
  by (simp add: make_Prefix_def Prefix_Shift_def)

text \<open>
  C9, amended. For every Prefix \<open>p\<close> of length \<open>prefixLen\<close> with \<open>prefixLen\<close> at least 1
  (a Prefix is "one or more words") and every token \<open>w\<close>: \<^verbatim>\<open>p.String()\<close> is the tokens
  joined by a single space; \<^verbatim>\<open>p.Shift(w)\<close> drops the token at index 0 and appends \<open>w\<close> at
  the end; and the length is \<open>prefixLen\<close> before and after the shift. The Prefix that
  \<^verbatim>\<open>make\<close> creates has that length too.
\<close>

theorem Prefix_String_Shift_length:
  "length p = L \<Longrightarrow> 0 < L \<Longrightarrow>
     Prefix_String p = joined_by_single_space p
     \<and> Prefix_Shift p w = Inr (drop 1 p @ [w])
     \<and> (\<exists>p'. Prefix_Shift p w = Inr p' \<and> length p' = L)
     \<and> length (make_Prefix L) = L"
proof -
  assume len: "length p = L" and pos: "0 < L"
  then have ne: "p \<noteq> []" by auto
  have shift: "Prefix_Shift p w = Inr (drop 1 p @ [w])"
    using Prefix_Shift_nonempty [OF ne] by (simp add: drop_Suc)
  have "length (drop 1 p @ [w]) = L"
    using len pos by simp
  with shift show ?thesis
    by (simp add: Prefix_String_def Join_space make_Prefix_def)
qed

theorem Prefix_String_Shift_length_witness:
  "length [''I'', ''am''] = 2 \<and> (0::nat) < 2
   \<and> Prefix_String [''I'', ''am''] = ''I am''
   \<and> Prefix_Shift [''I'', ''am''] ''not'' = Inr [''am'', ''not'']
   \<and> length (make_Prefix 2) = 2"
  using Prefix_String_Shift_length [of "[''I'', ''am'']" 2 "''not''"]
  by (simp add: joined_by_single_space_def)

section \<open>Generate: facts\<close>

lemma built_nonempty: "built m \<Longrightarrow> m key = Some vs \<Longrightarrow> vs \<noteq> []"
proof (induction arbitrary: key vs rule: built.induct)
  case built_empty
  then show ?case by simp
next
  case (built_Insert m k w)
  then show ?case
    by (cases "key = k") (auto simp: Insert_eq)
qed

lemma Prefix_Shift_keeps_length:
  "Prefix_Shift p w = Inr p' \<Longrightarrow> length p' = length p \<and> p \<noteq> []"
  by (cases "p = []") (auto simp: Prefix_Shift_nonempty, simp add: Prefix_Shift_def)

lemma Generate_loop_length:
  "Generate_loop m rnd i k p ws = Inr out \<Longrightarrow> length out \<le> length ws + k"
proof (induction k arbitrary: i p ws)
  case 0
  then show ?case by auto
next
  case (Suc k)
  show ?case
  proof (cases "Load m (Prefix_String p)")
    case None
    with Suc.prems show ?thesis by auto
  next
    case (Some choices)
    with Suc.prems obtain p' where
      "Generate_loop m rnd (Suc i) k p' (ws @ [choices ! (rnd i mod length choices)]) = Inr out"
      by (auto simp: Let_def split: if_splits sum.splits)
    from Suc.IH [OF this] show ?thesis by simp
  qed
qed

lemma Generate_loop_total:
  "p \<noteq> [] \<Longrightarrow> (\<And>key vs. m key = Some vs \<Longrightarrow> vs \<noteq> []) \<Longrightarrow>
     \<exists>out. Generate_loop m rnd i k p ws = Inr out"
proof (induction k arbitrary: i p ws)
  case 0
  then show ?case by simp
next
  case (Suc k)
  show ?case
  proof (cases "Load m (Prefix_String p)")
    case None
    then show ?thesis by simp
  next
    case (Some choices)
    then have ne: "choices \<noteq> []" using Suc.prems(2) by (auto simp: Load_def)
    let ?next = "choices ! (rnd i mod length choices)"
    have sh: "Prefix_Shift p ?next = Inr (tl p @ [?next])"
      using Suc.prems(1) by (rule Prefix_Shift_nonempty)
    have "\<exists>out. Generate_loop m rnd (Suc i) k (tl p @ [?next]) (ws @ [?next]) = Inr out"
      by (rule Suc.IH) (use Suc.prems(2) in auto)
    with Some ne sh show ?thesis by (simp add: Let_def)
  qed
qed

text \<open>
  C8. For every built table and every \<open>n\<close>: \<^verbatim>\<open>Generate\<close> on an empty table returns an
  empty sequence; \<^verbatim>\<open>Generate\<close> with \<open>n = 0\<close> returns an empty sequence; \<^verbatim>\<open>Generate\<close>
  never emits more than \<open>n\<close> words; and the loop stops as soon as the current prefix
  key is absent from the table, returning the words emitted so far. On a built table
  with a prefix of at least one word, \<^verbatim>\<open>Generate\<close> does return.
\<close>

theorem Generate_bounded:
  "Generate_words (c\<lparr>chain := Map.empty\<rparr>) n rnd = Inr []
   \<and> Generate (c\<lparr>chain := Map.empty\<rparr>) n rnd = Inr []
   \<and> Generate_words c 0 rnd = Inr []
   \<and> Generate c 0 rnd = Inr []
   \<and> (\<forall>ws. Generate_words c n rnd = Inr ws \<longrightarrow> length ws \<le> n)
   \<and> (Load (chain c) (Prefix_String p) = None \<longrightarrow>
        Generate_loop (chain c) rnd i k p ws = Inr ws)
   \<and> (built (chain c) \<and> 0 < prefixLen c \<longrightarrow>
        (\<exists>ws. Generate_words c n rnd = Inr ws \<and> length ws \<le> n))"
proof -
  have empty: "Generate_words (c\<lparr>chain := Map.empty\<rparr>) n rnd = Inr []"
    by (cases n) (simp_all add: Generate_words_def Load_def)
  have zero: "Generate_words c 0 rnd = Inr []"
    by (simp add: Generate_words_def)
  have bound: "length ws \<le> n" if "Generate_words c n rnd = Inr ws" for ws
    using Generate_loop_length [of "chain c" rnd 0 n "make_Prefix (prefixLen c)" "[]" ws] that
    by (simp add: Generate_words_def)
  have halt: "Generate_loop (chain c) rnd i k p ws = Inr ws"
    if "Load (chain c) (Prefix_String p) = None"
    using that by (cases k) simp_all
  have total: "\<exists>ws. Generate_words c n rnd = Inr ws \<and> length ws \<le> n"
    if b: "built (chain c)" and pos: "0 < prefixLen c"
  proof -
    have "make_Prefix (prefixLen c) \<noteq> []"
      using pos by (simp add: make_Prefix_def)
    then obtain out where "Generate_words c n rnd = Inr out"
      unfolding Generate_words_def
      using Generate_loop_total [of "make_Prefix (prefixLen c)" "chain c" rnd 0 n "[]"]
        built_nonempty [OF b] by blast
    with bound show ?thesis by blast
  qed
  from empty zero bound halt total show ?thesis
    by (simp add: Generate_def)
qed

theorem Generate_bounded_witness:
  "Generate_words \<lparr>chain = Insert Map.empty [] ''I'', prefixLen = 1\<rparr> 3 (\<lambda>i. i) = Inr [''I'']
   \<and> length [''I''] \<le> (3::nat)
   \<and> Load (Insert Map.empty [] ''I'') (Prefix_String [''I'']) = None
   \<and> Generate_loop (Insert Map.empty [] ''I'') (\<lambda>i. i) 1 2 [''I''] [''I''] = Inr [''I'']
   \<and> built (Insert Map.empty [] ''I'')
   \<and> (0::nat) < 1"
proof -
  let ?c = "\<lparr>chain = Insert Map.empty [] ''I'', prefixLen = 1\<rparr>"
  have run: "Generate_words ?c 3 (\<lambda>i. i) = Inr [''I'']"
    by (simp add: Generate_words_def make_Prefix_def Insert_eq collection_def Load_def
        Prefix_String_def Prefix_Shift_def copy_go_def numeral_3_eq_3)
  have absent: "Load (chain ?c) (Prefix_String [''I'']) = None"
    by (simp add: Insert_eq Load_def Prefix_String_def)
  have b: "built (chain ?c)"
    by (simp add: built.intros)
  from Generate_bounded [of ?c 3 "\<lambda>i. i" "[''I'']" 1 2 "[''I'']"] run absent b
  show ?thesis by simp
qed

section \<open>Tables and schedules: facts\<close>

lemma dom_Insert: "dom (Insert m key word) = insert key (dom m)"
  by (simp add: Insert_eq)

lemma insertions_Insert:
  assumes fin: "finite (dom m)"
  shows "insertions (Insert m key word) = Suc (insertions m)"
proof (cases "key \<in> dom m")
  case True
  let ?m' = "m(key \<mapsto> collection m key @ [word])"
  have rest: "(\<Sum>k \<in> dom m - {key}. length (the (?m' k))) = (\<Sum>k \<in> dom m - {key}. length (the (m k)))"
    by (rule sum.cong) auto
  have "insertions ?m' = length (the (?m' key)) + (\<Sum>k \<in> dom m - {key}. length (the (?m' k)))"
    unfolding insertions_def using True fin
    by (simp add: insert_absorb sum.remove [of "dom m" key])
  also have "\<dots> = Suc (length (the (m key))) + (\<Sum>k \<in> dom m - {key}. length (the (m k)))"
    using True by (auto simp: rest collection_def Load_def)
  also have "\<dots> = Suc (insertions m)"
    unfolding insertions_def using True fin by (simp add: sum.remove [of "dom m" key])
  finally show ?thesis by (simp add: Insert_eq)
next
  case False
  let ?m' = "m(key \<mapsto> collection m key @ [word])"
  have rest: "(\<Sum>k \<in> dom m. length (the (?m' k))) = (\<Sum>k \<in> dom m. length (the (m k)))"
    by (rule sum.cong) (use False in auto)
  have emp: "collection m key = []"
    using False by (auto simp: collection_def Load_def split: option.splits)
  have d: "dom ?m' = insert key (dom m)" by simp
  have "insertions ?m' = (\<Sum>k \<in> insert key (dom m). length (the (?m' k)))"
    unfolding insertions_def d ..
  also have "\<dots> = length (the (?m' key)) + (\<Sum>k \<in> dom m. length (the (?m' k)))"
    by (simp only: sum.insert [OF fin False])
  also have "\<dots> = length (the (?m' key)) + (\<Sum>k \<in> dom m. length (the (m k)))"
    by (simp only: rest)
  also have "\<dots> = Suc (insertions m)"
    by (simp add: emp insertions_def)
  finally show ?thesis by (simp add: Insert_eq)
qed

lemma insertions_foldl:
  "finite (dom m) \<Longrightarrow>
     finite (dom (foldl ins m ps)) \<and> insertions (foldl ins m ps) = insertions m + length ps"
proof (induction ps arbitrary: m)
  case Nil
  then show ?case by simp
next
  case (Cons kw ps)
  have fin: "finite (dom (ins m kw))"
    using Cons.prems by (simp add: ins_def dom_Insert)
  from Cons.IH [OF fin] show ?case
    using Cons.prems by (simp add: ins_def insertions_Insert)
qed

lemma scan_pairs_words: "scan_pairs p ws = Inr ps \<Longrightarrow> map snd ps = ws"
  by (induction ws arbitrary: p ps) (auto simp: Let_def split: sum.splits)

lemma scan_pairs_length: "scan_pairs p ws = Inr ps \<Longrightarrow> length ps = length ws"
  using scan_pairs_words [of p ws ps] by (metis length_map)

lemma Build_loop_scan:
  "Build_loop m p ws = (case scan_pairs p ws of Inl e \<Rightarrow> Inl e | Inr ps \<Rightarrow> Inr (foldl ins m ps))"
  by (induction ws arbitrary: m p) (auto simp: Let_def ins_def split: sum.splits)

lemma mset_interleave: "mset (interleave sched qs) = mset (concat qs)"
proof (induction sched arbitrary: qs)
  case Nil
  show ?case by simp
next
  case (Cons g sched)
  show ?case
  proof (cases "g < length qs")
    case False
    then show ?thesis by (simp add: Cons.IH)
  next
    case True
    show ?thesis
    proof (cases "qs ! g")
      case Nil
      with True show ?thesis by (simp add: Cons.IH)
    next
      case (Cons x q)
      have split: "qs = take g qs @ (x # q) # drop (Suc g) qs"
        using True Cons by (metis id_take_nth_drop)
      have upd: "qs[g := q] = take g qs @ q # drop (Suc g) qs"
        using True by (simp add: upd_conv_take_nth_drop)
      have "mset (concat (qs[g := q])) + {#x#} = mset (concat qs)"
        by (subst (2) split) (simp add: upd)
      with True Cons show ?thesis
        by (simp add: Cons.IH)
    qed
  qed
qed

lemma length_interleave: "length (interleave sched qs) = length (concat qs)"
  using mset_interleave [of sched qs] by (metis size_mset)

lemma collect_Inr: "collect rs = Inr xs \<Longrightarrow> rs = map Inr xs"
proof (induction rs arbitrary: xs)
  case Nil
  then show ?case by simp
next
  case (Cons r rs)
  then show ?case
    by (cases r) (auto split: sum.splits)
qed

section \<open>Partition and channel: facts\<close>

lemma perWorker_covers: "0 < workers \<Longrightarrow> n \<le> perWorker n workers * workers"
proof -
  assume pos: "0 < workers"
  have n: "n div workers * workers + n mod workers = n" by simp
  have lt: "n mod workers < workers" using pos by simp
  show ?thesis
  proof (cases "n mod workers = 0")
    case True
    with n show ?thesis by (simp add: perWorker_def)
  next
    case False
    have "n \<le> n div workers * workers + workers"
      using n lt by linarith
    with False show ?thesis by (simp add: perWorker_def)
  qed
qed

text \<open>
  Where the last worker's start is within the sequence, the segments are as the
  partition is meant: contiguous, of length \<open>perWorker\<close> but for the last, which ends
  at \<open>n\<close>.
\<close>

lemma segments_when_last_start_in_range:
  assumes "0 < workers" "perWorker n workers * (workers - 1) \<le> n" "i < workers"
  shows "seg_start n workers i \<le> seg_end n workers i"
    and "seg_end n workers i \<le> n"
    and "Suc i < workers \<Longrightarrow> seg_end n workers i = seg_start n workers (Suc i)"
    and "Suc i < workers \<Longrightarrow> seg_end n workers i - seg_start n workers i = perWorker n workers"
    and "Suc i = workers \<Longrightarrow> seg_end n workers i = n"
proof -
  let ?pw = "perWorker n workers"
  have mono: "?pw * j \<le> n" if "j \<le> workers - 1" for j
  proof -
    have "?pw * j \<le> ?pw * (workers - 1)" using that by (rule mult_le_mono2)
    from this assms(2) show ?thesis by (rule le_trans)
  qed
  show "seg_end n workers i \<le> n"
    by (simp add: seg_end_def)
  show "seg_start n workers i \<le> seg_end n workers i"
    using mono [of i] assms(3) by (simp add: seg_start_def seg_end_def)
  show "seg_end n workers i = seg_start n workers (Suc i)" if "Suc i < workers"
    using mono [of "Suc i"] that by (simp add: seg_start_def seg_end_def)
  show "seg_end n workers i - seg_start n workers i = perWorker n workers" if "Suc i < workers"
    using mono [of "Suc i"] that by (simp add: seg_start_def seg_end_def)
  show "seg_end n workers i = n" if "Suc i = workers"
    using perWorker_covers [OF assms(1), of n] that by (simp add: seg_end_def)
qed

lemma tp_worker_Inr:
  "tp_worker L words start stop = Inr ps \<Longrightarrow>
     start \<le> stop \<and> stop \<le> length words \<and> length ps = stop - start"
  by (auto simp: tp_worker_def slice_go_def dest!: scan_pairs_length split: sum.splits if_splits)

lemma tp_work_nth:
  assumes "tp_work L words workers = Inr qs"
  shows "length qs = workers"
    and "i < workers \<Longrightarrow>
           tp_worker L words (seg_start (length words) workers i)
                             (seg_end (length words) workers i) = Inr (qs ! i)"
proof -
  from assms have eq:
    "map (\<lambda>i. tp_worker L words (seg_start (length words) workers i)
                                 (seg_end (length words) workers i)) [0..<workers]
       = map Inr qs"
    unfolding tp_work_def by (rule collect_Inr)
  from arg_cong [OF eq, of length] show len: "length qs = workers" by simp
  assume i: "i < workers"
  from arg_cong [OF eq, of "\<lambda>xs. xs ! i"] i len
  show "tp_worker L words (seg_start (length words) workers i)
                          (seg_end (length words) workers i) = Inr (qs ! i)"
    by simp
qed

lemma tp_work_prefix_length:
  assumes work: "tp_work L words workers = Inr qs"
  shows "k \<le> workers \<Longrightarrow>
           length (concat (take k qs)) = min (perWorker (length words) workers * k) (length words)"
proof (induction k)
  case 0
  show ?case by simp
next
  case (Suc k)
  then have k: "k < workers" by simp
  let ?pw = "perWorker (length words) workers"
  from tp_work_nth(2) [OF work k] tp_worker_Inr
  have seg: "seg_start (length words) workers k \<le> seg_end (length words) workers k"
    and len: "length (qs ! k) = seg_end (length words) workers k - seg_start (length words) workers k"
    by blast+
  have take: "take (Suc k) qs = take k qs @ [qs ! k]"
    using k tp_work_nth(1) [OF work] by (simp add: take_Suc_conv_app_nth)
  from seg have le: "?pw * k \<le> length words"
    by (simp add: seg_start_def seg_end_def)
  have "length (concat (take (Suc k) qs)) = min (?pw * k) (length words) + length (qs ! k)"
    using Suc.IH k by (simp add: take)
  also have "\<dots> = ?pw * k + (min (?pw * (k + 1)) (length words) - ?pw * k)"
    using le len by (simp add: seg_start_def seg_end_def)
  also have "\<dots> = min (?pw * Suc k) (length words)"
    using le by simp
  finally show ?case .
qed

lemma tp_work_length:
  assumes pos: "0 < workers" and work: "tp_work L words workers = Inr qs"
  shows "length (concat qs) = length words"
proof -
  have "length (concat (take workers qs)) = min (perWorker (length words) workers * workers) (length words)"
    by (rule tp_work_prefix_length [OF work]) simp
  with perWorker_covers [OF pos, of "length words"] tp_work_nth(1) [OF work]
  show ?thesis by simp
qed

lemma go_tasks_length:
  "collect (map (go_task L words) [L..<length words]) = Inr ps \<Longrightarrow>
     length ps = length words - L"
  using collect_Inr [of "map (go_task L words) [L..<length words]" ps]
  by (metis length_map length_upt)

lemma go_channel_length:
  assumes "go_channel c words sends = Inr sent"
  shows "length sent = length words"
proof -
  from assms obtain seed seeds ps where
    seed: "slice_go words 0 (prefixLen c) = Inr seed"
    and seeds: "scan_pairs (make_Prefix (prefixLen c)) seed = Inr seeds"
    and ps: "collect (map (go_task (prefixLen c) words) [prefixLen c..<length words]) = Inr ps"
    and sent: "sent = seeds @ interleave sends (map (\<lambda>kw. [kw]) ps)"
    by (auto simp: go_channel_def split: sum.splits if_splits)
  from seed have "prefixLen c \<le> length words" "length seed = prefixLen c"
    by (auto simp: slice_go_def split: if_splits)
  moreover have "length seeds = length seed" using seeds by (rule scan_pairs_length)
  moreover have "length ps = length words - prefixLen c" using ps by (rule go_tasks_length)
  moreover have "length (concat (map (\<lambda>kw. [kw]) ps)) = length ps"
    by (induction ps) simp_all
  ultimately show ?thesis
    by (simp add: sent length_interleave)
qed

section \<open>The sequential scan in closed form\<close>

lemma scan_pairs_Cons:
  "p \<noteq> [] \<Longrightarrow>
     scan_pairs p (w # ws) =
       (case scan_pairs (tl p @ [w]) ws of
          Inl e \<Rightarrow> Inl e
        | Inr ps \<Rightarrow> Inr ((Prefix_String p, w) # ps))"
  by (simp add: Prefix_Shift_nonempty Let_def)

lemma scan_pairs_closed:
  "p \<noteq> [] \<Longrightarrow>
     scan_pairs p ws =
       Inr (map (\<lambda>j. (Prefix_String (drop j (p @ take j ws)), ws ! j)) [0..<length ws])"
proof (induction ws arbitrary: p)
  case Nil
  show ?case by simp
next
  case (Cons w ws)
  have ne: "tl p @ [w] \<noteq> []" by simp
  have shift: "drop (Suc j) (p @ w # take j ws) = drop j ((tl p @ [w]) @ take j ws)" for j
    using Cons.prems by (cases p) simp_all
  have upt: "[0..<length (w # ws)] = 0 # map Suc [0..<length ws]"
    by (simp add: upt_conv_Cons map_Suc_upt del: upt_Suc)
  have closed: "map (\<lambda>j. (Prefix_String (drop j (p @ take j (w # ws))), (w # ws) ! j))
            [0..<length (w # ws)]
        = (Prefix_String p, w)
          # map (\<lambda>j. (Prefix_String (drop j ((tl p @ [w]) @ take j ws)), ws ! j))
                [0..<length ws]"
    by (simp only: upt list.map map_map o_def take_Suc_Cons nth_Cons_Suc nth_Cons_0 shift
        take_0 drop_0 append_Nil2)
  have "scan_pairs p (w # ws)
        = Inr ((Prefix_String p, w)
               # map (\<lambda>j. (Prefix_String (drop j ((tl p @ [w]) @ take j ws)), ws ! j))
                     [0..<length ws])"
    using Cons.prems by (simp add: scan_pairs_Cons Cons.IH [OF ne] del: scan_pairs.simps)
  then show ?case
    by (simp only: closed)
qed

lemma sequential_pairs:
  "0 < L \<Longrightarrow>
     scan_pairs (make_Prefix L) words = Inr (map (sequential_pair L words) [0..<length words])"
  using scan_pairs_closed [of "make_Prefix L" words]
  by (simp add: sequential_pair_def make_Prefix_def)

lemma successors_foldl:
  "successors (foldl ins m ps) key
     = successors m key + mset (map snd (filter (\<lambda>kw. fst kw = key) ps))"
proof (induction ps arbitrary: m)
  case Nil
  show ?case by simp
next
  case (Cons kw ps)
  have "successors (ins m kw) key
          = successors m key + mset (map snd (filter (\<lambda>kw. fst kw = key) [kw]))"
    by (simp add: ins_def Insert_eq successors_def collection_def Load_def)
  then show ?case
    by (simp add: Cons.IH)
qed

lemma successors_mset_cong:
  assumes "mset ps = mset ps'"
  shows "successors (foldl ins m ps) key = successors (foldl ins m ps') key"
proof -
  have "mset (map snd (filter (\<lambda>kw. fst kw = key) ps))
          = image_mset snd (filter_mset (\<lambda>kw. fst kw = key) (mset ps))"
    by simp
  also have "\<dots> = image_mset snd (filter_mset (\<lambda>kw. fst kw = key) (mset ps'))"
    by (simp only: assms)
  also have "\<dots> = mset (map snd (filter (\<lambda>kw. fst kw = key) ps'))"
    by simp
  finally show ?thesis
    by (simp only: successors_foldl)
qed

lemma go_task_sequential:
  assumes "L \<le> idx" "idx < length words"
  shows "go_task L words idx = Inr (sequential_pair L words idx)"
proof -
  have "drop idx (make_Prefix L @ take idx words) = drop (idx - L) (take idx words)"
    using assms by (simp add: make_Prefix_def)
  also have "\<dots> = take L (drop (idx - L) words)"
    using assms by (simp add: drop_take)
  finally show ?thesis
    using assms
    by (simp add: go_task_def slice_go_def index_go_def sequential_pair_def Prefix_String_def)
qed

lemma collect_map_Inr: "collect (map Inr xs) = Inr xs"
  by (induction xs) simp_all

lemma go_tasks_sequential:
  "L \<le> length words \<Longrightarrow>
    collect (map (go_task L words) [L..<length words])
      = Inr (map (sequential_pair L words) [L..<length words])"
proof -
  have "map (go_task L words) [L..<length words]
          = map Inr (map (sequential_pair L words) [L..<length words])"
    by (simp add: go_task_sequential)
  then show ?thesis by (simp only: collect_map_Inr)
qed

lemma seeds_sequential:
  assumes "L \<le> length words"
  shows "scan_pairs (make_Prefix L) (take L words) = Inr (map (sequential_pair L words) [0..<L])"
proof (cases "L = 0")
  case True
  then show ?thesis by simp
next
  case False
  then have "scan_pairs (make_Prefix L) (take L words)
               = Inr (map (sequential_pair L (take L words)) [0..<length (take L words)])"
    by (simp add: sequential_pairs)
  moreover have "map (sequential_pair L (take L words)) [0..<L]
                   = map (sequential_pair L words) [0..<L]"
    by (rule map_cong) (auto simp: sequential_pair_def min_def)
  ultimately show ?thesis using assms by simp
qed

lemma go_channel_sequential:
  assumes "go_channel c words sends = Inr sent"
  shows "mset sent = mset (map (sequential_pair (prefixLen c) words) [0..<length words])"
proof -
  let ?L = "prefixLen c"
  from assms have le: "?L \<le> length words"
    by (auto simp: go_channel_def slice_go_def split: if_splits)
  then have seed: "slice_go words 0 ?L = Inr (take ?L words)"
    by (simp add: slice_go_def)
  from assms have sent:
    "sent = map (sequential_pair ?L words) [0..<?L]
            @ interleave sends (map (\<lambda>kw. [kw]) (map (sequential_pair ?L words) [?L..<length words]))"
    by (auto simp: go_channel_def seed seeds_sequential [OF le] go_tasks_sequential [OF le]
        split: if_splits)
  let ?g = "sequential_pair ?L words"
  have single: "concat (map (\<lambda>kw. [kw]) xs) = xs" for xs :: "pair list"
    by (induction xs) simp_all
  have upt: "[0..<?L] @ [?L..<length words] = [0..<length words]"
    using le by (metis le_add_diff_inverse upt_add_eq_append zero_le)
  have "mset sent = mset (map ?g [0..<?L])
                      + mset (interleave sends (map (\<lambda>kw. [kw]) (map ?g [?L..<length words])))"
    by (simp only: sent mset_append)
  also have "\<dots> = mset (map ?g [0..<?L]) + mset (map ?g [?L..<length words])"
    by (simp only: mset_interleave single)
  also have "\<dots> = mset (map ?g ([0..<?L] @ [?L..<length words]))"
    by (simp only: map_append mset_append)
  finally show ?thesis
    by (simp only: upt)
qed

section \<open>Partition workers reproduce the sequential scan\<close>

lemma window_closed:
  assumes "L \<le> idx" "idx \<le> length words"
  shows "drop idx (make_Prefix L @ take idx words) = take L (drop (idx - L) words)"
proof -
  have "drop idx (make_Prefix L @ take idx words) = drop (idx - L) (take idx words)"
    using assms by (simp add: make_Prefix_def)
  also have "\<dots> = take L (drop (idx - L) words)"
    using assms by (simp add: drop_take)
  finally show ?thesis .
qed

lemma read_context_in_range:
  "read_context words start L idxs p = Inr p' \<Longrightarrow> idx \<in> set idxs \<Longrightarrow>
     0 \<le> int start + int idx - int L \<and> int start + int idx - int L < int (length words)"
proof (induction idxs arbitrary: p)
  case Nil
  then show ?case by simp
next
  case (Cons i idxs)
  from Cons.prems(1) obtain w where
    here: "index_go words (int start + int i - int L) = Inr w"
    and rest: "read_context words start L idxs (p[i := w]) = Inr p'"
    by (auto split: sum.splits)
  show ?case
  proof (cases "idx = i")
    case True
    with here show ?thesis by (auto simp: index_go_def split: if_splits)
  next
    case False
    with Cons.prems(2) have "idx \<in> set idxs" by simp
    from Cons.IH [OF rest this] show ?thesis .
  qed
qed

lemma read_context_ok:
  assumes "L \<le> start" "start \<le> length words"
  shows "length p = L \<Longrightarrow> k \<le> L \<Longrightarrow>
     read_context words start L [k..<L] p
       = Inr (take k p @ map (\<lambda>idx. words ! (start + idx - L)) [k..<L])"
proof (induction d \<equiv> "L - k" arbitrary: k p)
  case 0
  then show ?case by simp
next
  case (Suc d)
  then have k: "k < L" by simp
  let ?w = "words ! (start + k - L)"
  have upt: "[k..<L] = k # [Suc k..<L]"
    using k by (rule upt_conv_Cons)
  have idx: "index_go words (int start + int k - int L) = Inr ?w"
  proof -
    have r1: "0 \<le> int start + int k - int L"
      using assms(1) by linarith
    have r2: "int start + int k - int L < int (length words)"
      using assms k by linarith
    have n: "nat (int start + int k - int L) = start + k - L"
      using assms(1) by linarith
    show ?thesis
      by (simp only: index_go_def r1 r2 n simp_thms if_True)
  qed
  have d: "d = L - Suc k" using Suc.hyps(2) by simp
  have len: "length (p[k := ?w]) = L" using Suc.prems(1) by simp
  have le: "Suc k \<le> L" using k by simp
  have "read_context words start L [k..<L] p
          = read_context words start L [Suc k..<L] (p[k := ?w])"
    by (simp only: upt read_context.simps idx sum.case)
  also have "\<dots> = Inr (take (Suc k) (p[k := ?w])
                       @ map (\<lambda>idx. words ! (start + idx - L)) [Suc k..<L])"
    by (rule Suc.hyps(1) [OF d len le])
  also have "take (Suc k) (p[k := ?w]) = take k p @ [?w]"
    using Suc.prems(1) k by (simp add: take_Suc_conv_app_nth)
  also have "(take k p @ [?w]) @ map (\<lambda>idx. words ! (start + idx - L)) [Suc k..<L]
               = take k p @ map (\<lambda>idx. words ! (start + idx - L)) [k..<L]"
    by (simp only: upt list.map append_Cons append_Nil append_assoc)
  finally show ?case .
qed

lemma init_Prefix_ok:
  assumes "0 < start" "L \<le> start" "start \<le> length words"
  shows "init_Prefix L words start = Inr (take L (drop (start - L) words))"
proof -
  have "map (\<lambda>idx. words ! (start + idx - L)) [0..<L] = take L (drop (start - L) words)"
    using assms by (intro nth_equalityI) (auto simp: add.commute)
  with read_context_ok [OF assms(2,3), of "make_Prefix L" 0] assms(1)
  show ?thesis
    by (simp add: init_Prefix_def make_Prefix_def)
qed

lemma init_Prefix_Inr:
  assumes "init_Prefix L words start = Inr p" "0 < L"
  shows "start = 0 \<or> (L \<le> start \<and> start \<le> length words)"
proof (cases "start = 0")
  case True
  then show ?thesis by simp
next
  case False
  with assms(1) have rc: "read_context words start L [0..<L] (make_Prefix L) = Inr p"
    by (simp add: init_Prefix_def)
  have "0 \<in> set [0..<L]" "L - 1 \<in> set [0..<L]"
    using assms(2) by simp_all
  from read_context_in_range [OF rc this(1)] read_context_in_range [OF rc this(2)] assms(2)
  show ?thesis by auto
qed

lemma init_Prefix_length: "init_Prefix L words start = Inr p \<Longrightarrow> length p = L"
proof -
  have "read_context words start L idxs q = Inr p \<Longrightarrow> length p = length q" for idxs q
    by (induction idxs arbitrary: q) (auto split: sum.splits)
  then show "init_Prefix L words start = Inr p \<Longrightarrow> length p = L"
    by (auto simp: init_Prefix_def make_Prefix_def split: if_splits)
qed

lemma tp_worker_sequential:
  assumes pos: "0 < L" and work: "tp_worker L words start stop = Inr ps"
  shows "ps = map (sequential_pair L words) [start..<stop]"
proof -
  from work obtain p where
    init: "init_Prefix L words start = Inr p"
    and bounds: "start \<le> stop" "stop \<le> length words"
    and scan: "scan_pairs p (take (stop - start) (drop start words)) = Inr ps"
    by (auto simp: tp_worker_def slice_go_def split: sum.splits if_splits)
  let ?seg = "take (stop - start) (drop start words)"
  have len: "length ?seg = stop - start" using bounds by simp
  have ne: "p \<noteq> []" using init_Prefix_length [OF init] pos by auto
  have ps: "ps = map (\<lambda>j. (Prefix_String (drop j (p @ take j ?seg)), ?seg ! j)) [0..<stop - start]"
    using scan scan_pairs_closed [OF ne, of ?seg] len by simp
  have pair: "(Prefix_String (drop j (p @ take j ?seg)), ?seg ! j)
                = sequential_pair L words (j + start)" if j: "j < stop - start" for j
  proof -
    have "?seg ! j = words ! (start + j)"
      using j bounds by simp
    then have nth: "?seg ! j = words ! (j + start)"
      by (simp only: add.commute [of j start])
    have tk: "take j ?seg = take j (drop start words)"
      using j by (simp add: min_def)
    have win: "drop j (p @ take j ?seg)
                 = drop (j + start) (make_Prefix L @ take (j + start) words)"
    proof (cases "start = 0")
      case True
      with init have "p = make_Prefix L" by (simp add: init_Prefix_def)
      with True tk show ?thesis by simp
    next
      case False
      with init_Prefix_Inr [OF init pos] have le: "L \<le> start" "start \<le> length words"
        by auto
      from False le init have p: "p = take L (drop (start - L) words)"
        by (simp add: init_Prefix_ok)
      have cat: "p @ take j (drop start words) = take (L + j) (drop (start - L) words)"
        using le by (simp add: p take_add)
      have "drop j (p @ take j ?seg) = drop j (take (L + j) (drop (start - L) words))"
        by (simp only: tk cat)
      also have "\<dots> = take L (drop j (drop (start - L) words))"
        by (simp add: drop_take)
      also have "drop j (drop (start - L) words) = drop (j + start - L) words"
        using le by simp
      also have "take L (drop (j + start - L) words)
                   = drop (j + start) (make_Prefix L @ take (j + start) words)"
        by (rule window_closed [symmetric]) (use le j bounds in simp_all)
      finally show ?thesis .
    qed
    show ?thesis
      by (simp only: sequential_pair_def win nth)
  qed
  have "ps = map (\<lambda>j. sequential_pair L words (j + start)) [0..<stop - start]"
    unfolding ps
  proof (rule map_cong)
    fix j assume "j \<in> set [0..<stop - start]"
    then have "j < stop - start" by simp
    then show "(Prefix_String (drop j (p @ take j ?seg)), ?seg ! j)
                 = sequential_pair L words (j + start)"
      by (rule pair)
  qed simp
  also have "\<dots> = map (sequential_pair L words) (map (\<lambda>j. j + start) [0..<stop - start])"
    by (simp only: map_map o_def)
  also have "map (\<lambda>j. j + start) [0..<stop - start] = [start..<stop]"
    using bounds by (simp add: map_add_upt)
  finally show ?thesis .
qed

lemma tp_work_prefix_sequential:
  assumes pos: "0 < L" and work: "tp_work L words workers = Inr qs"
  shows "k \<le> workers \<Longrightarrow>
           concat (take k qs)
             = map (sequential_pair L words)
                   [0..<min (perWorker (length words) workers * k) (length words)]"
proof (induction k)
  case 0
  show ?case by simp
next
  case (Suc k)
  then have k: "k < workers" by simp
  let ?pw = "perWorker (length words) workers"
  let ?n = "length words"
  let ?g = "sequential_pair L words"
  have worker: "tp_worker L words (?pw * k) (min (?pw * (k + 1)) ?n) = Inr (qs ! k)"
    using tp_work_nth(2) [OF work k] by (simp only: seg_start_def seg_end_def)
  from tp_worker_Inr [OF worker] have le: "?pw * k \<le> min (?pw * (k + 1)) ?n"
    by simp
  then have lo: "min (?pw * k) ?n = ?pw * k"
    by simp
  have nth: "qs ! k = map ?g [?pw * k..<min (?pw * (k + 1)) ?n]"
    using pos worker by (rule tp_worker_sequential)
  have take: "take (Suc k) qs = take k qs @ [qs ! k]"
    using k tp_work_nth(1) [OF work] by (simp add: take_Suc_conv_app_nth)
  have "concat (take (Suc k) qs) = concat (take k qs) @ qs ! k"
    by (simp add: take)
  also have "\<dots> = map ?g [0..<?pw * k] @ map ?g [?pw * k..<min (?pw * (k + 1)) ?n]"
    using Suc.IH k by (simp only: nth lo)
  also have "\<dots> = map ?g ([0..<?pw * k] @ [?pw * k..<min (?pw * (k + 1)) ?n])"
    by (simp only: map_append)
  also have "[0..<?pw * k] @ [?pw * k..<min (?pw * (k + 1)) ?n] = [0..<min (?pw * (k + 1)) ?n]"
    using le by (metis le_add_diff_inverse upt_add_eq_append zero_le)
  finally show ?case by (simp only: Suc_eq_plus1)
qed

lemma tp_work_sequential:
  assumes "0 < L" "0 < workers" "tp_work L words workers = Inr qs"
  shows "concat qs = map (sequential_pair L words) [0..<length words]"
proof -
  have "concat (take workers qs)
          = map (sequential_pair L words)
                [0..<min (perWorker (length words) workers * workers) (length words)]"
    by (rule tp_work_prefix_sequential [OF assms(1,3)]) simp
  moreover have "min (perWorker (length words) workers * workers) (length words) = length words"
    using perWorker_covers [OF assms(2), of "length words"] by simp
  ultimately show ?thesis
    using tp_work_nth(1) [OF assms(3)] by simp
qed

lemma tp_worker_returns:
  assumes "0 < L" "start = 0 \<or> L \<le> start" "start \<le> stop" "stop \<le> length words"
  shows "tp_worker L words start stop = Inr (map (sequential_pair L words) [start..<stop])"
proof -
  have "\<exists>p. init_Prefix L words start = Inr p \<and> p \<noteq> []"
  proof (cases "start = 0")
    case True
    with assms(1) show ?thesis by (simp add: init_Prefix_def make_Prefix_def)
  next
    case False
    with assms have "init_Prefix L words start = Inr (take L (drop (start - L) words))"
      by (intro init_Prefix_ok) simp_all
    moreover have "take L (drop (start - L) words) \<noteq> []"
      using False assms by simp
    ultimately show ?thesis by blast
  qed
  then obtain p where init: "init_Prefix L words start = Inr p" and ne: "p \<noteq> []"
    by blast
  from scan_pairs_closed [OF ne] obtain ps where
    "scan_pairs p (take (stop - start) (drop start words)) = Inr ps"
    by blast
  then have work: "tp_worker L words start stop = Inr ps"
    using assms by (simp add: tp_worker_def init slice_go_def)
  from tp_worker_sequential [OF assms(1) work] work show ?thesis by simp
qed

text \<open>
  The partition is safe where a segment is at least as long as the prefix and the last
  worker starts within the sequence: then no worker panics.
\<close>

lemma tp_work_returns:
  assumes "0 < L" "0 < workers"
    and "L \<le> perWorker (length words) workers"
    and "perWorker (length words) workers * (workers - 1) \<le> length words"
  shows "\<exists>qs. tp_work L words workers = Inr qs"
proof -
  let ?n = "length words"
  let ?f = "\<lambda>i. tp_worker L words (seg_start ?n workers i) (seg_end ?n workers i)"
  let ?g = "\<lambda>i. map (sequential_pair L words) [seg_start ?n workers i..<seg_end ?n workers i]"
  have "?f i = Inr (?g i)" if i: "i < workers" for i
  proof (rule tp_worker_returns [OF assms(1)])
    show "seg_start ?n workers i = 0 \<or> L \<le> seg_start ?n workers i"
    proof (cases i)
      case 0
      then show ?thesis by (simp add: seg_start_def)
    next
      case (Suc j)
      then have "1 \<le> i" by simp
      then have "perWorker ?n workers * 1 \<le> perWorker ?n workers * i"
        by (rule mult_le_mono2)
      then have "perWorker ?n workers \<le> perWorker ?n workers * i"
        by (simp only: mult_1_right)
      with assms(3) have "L \<le> perWorker ?n workers * i" by (rule le_trans)
      then show ?thesis by (simp only: seg_start_def simp_thms)
    qed
    show "seg_start ?n workers i \<le> seg_end ?n workers i"
      using segments_when_last_start_in_range(1) [OF assms(2,4) i] .
    show "seg_end ?n workers i \<le> ?n"
      by (simp add: seg_end_def)
  qed
  then have "map ?f [0..<workers] = map Inr (map ?g [0..<workers])"
    by simp
  then have "tp_work L words workers = Inr (map ?g [0..<workers])"
    unfolding tp_work_def by (simp only: collect_map_Inr)
  then show ?thesis by blast
qed

section \<open>One inserting goroutine: the sequential table\<close>

text \<open>
  Where one goroutine makes all the inserts and the build returns, the table has the
  successor multisets of the sequential build, under every order of the sends.
\<close>

lemma single_inserter_matches_sequential:
  assumes build: "Build (NewChain L) words workers inserters sends steps = Inr c"
    and single: "workers = 1 \<or> inserters = 1"
    and pos: "0 < L"
  shows "\<exists>c'. Build (NewChain L) words 1 0 [] [] = Inr c'
           \<and> (\<forall>key. successors (chain c) key = successors (chain c') key)"
proof -
  let ?ps = "map (sequential_pair L words) [0..<length words]"
  let ?c' = "\<lparr>chain = foldl ins Map.empty ?ps, prefixLen = L\<rparr>"
  have seq_build: "Build (NewChain L) words (Suc 0) i s t = Inr ?c'" for i s t
    by (simp add: Build_def NewChain_def Build_loop_scan sequential_pairs [OF pos])
  have "\<exists>sent. chain c = foldl ins Map.empty sent \<and> mset sent = mset ?ps"
  proof -
    consider (seq) "workers = 1"
      | (go) "workers = 0" "inserters = 1"
      | (tp) "workers \<noteq> 1" "workers \<noteq> 0" "inserters = 1"
      using single by auto
    then show ?thesis
    proof cases
      case seq
      with build have "c = ?c'" by (simp add: seq_build)
      then show ?thesis by auto
    next
      case go
      with build obtain sent where
        ch: "go_channel (NewChain L) words sends = Inr sent" "chain c = foldl ins Map.empty sent"
        by (auto simp: Build_def BuildGo_def BuildGoChannel_def NewChain_def split: sum.splits)
      from go_channel_sequential [OF ch(1)] have "mset sent = mset ?ps"
        by (simp add: NewChain_def)
      with ch(2) show ?thesis by blast
    next
      case tp
      with build obtain qs where
        w: "tp_work L words workers = Inr qs"
           "chain c = foldl ins Map.empty (interleave sends qs)"
        by (auto simp: Build_def BuildTP_def BuildTPChannel_def NewChain_def split: sum.splits)
      from tp have "0 < workers" by simp
      from tp_work_sequential [OF pos this w(1)]
      have "mset (interleave sends qs) = mset ?ps"
        by (simp only: mset_interleave)
      with w(2) show ?thesis by blast
    qed
  qed
  then obtain sent where
    sent: "chain c = foldl ins Map.empty sent" "mset sent = mset ?ps"
    by blast
  have "successors (chain c) key = successors (chain ?c') key" for key
    using successors_mset_cong [OF sent(2)] by (simp add: sent(1))
  then show ?thesis by (simp add: seq_build)
qed

text \<open>
  With one inserter, the partitioned build over a safe partition returns, and its table
  is the sequential one.
\<close>

lemma partitioned_single_channel_matches_sequential:
  assumes "0 < L" "1 < workers"
    and "L \<le> perWorker (length words) workers"
    and "perWorker (length words) workers * (workers - 1) \<le> length words"
  shows "\<exists>c c'. Build (NewChain L) words workers 1 sends steps = Inr c
           \<and> Build (NewChain L) words 1 0 [] [] = Inr c'
           \<and> (\<forall>key. successors (chain c) key = successors (chain c') key)"
proof -
  from assms have "\<exists>qs. tp_work L words workers = Inr qs"
    by (intro tp_work_returns) simp_all
  then obtain qs where "tp_work L words workers = Inr qs" by blast
  with assms(2) obtain c where
    build: "Build (NewChain L) words workers 1 sends steps = Inr c"
    by (simp add: Build_def BuildTP_def BuildTPChannel_def NewChain_def)
  from single_inserter_matches_sequential [OF build _ assms(1)] build
  show ?thesis by blast
qed

lemma finish_all_workers:
  "finish_all m [] (map (\<lambda>q. (Idle, q)) qs) = foldl ins m (concat qs)"
  by (induction qs arbitrary: m) simp_all

lemma finish_all_consumers:
  "0 < inserters \<Longrightarrow> finish_all m ch (replicate inserters (Idle, [])) = foldl ins m ch"
proof -
  have idle: "finish_all m' [] (replicate k (Idle, [])) = m'" for m' k
    by (induction k) simp_all
  assume "0 < inserters"
  then obtain k where "inserters = Suc k" by (cases inserters) auto
  then show ?thesis by (simp add: idle)
qed

text \<open>
  Every strategy, when the build returns and the inserting goroutines run one after
  the other (the empty schedule of steps), gives the successor multisets of the
  sequential build, under every order of the sends.
\<close>

lemma serial_schedule_matches_sequential:
  assumes build: "Build (NewChain L) words workers inserters sends [] = Inr c"
    and pos: "0 < L"
  shows "\<exists>c'. Build (NewChain L) words 1 0 [] [] = Inr c'
           \<and> (\<forall>key. successors (chain c) key = successors (chain c') key)"
proof (cases "workers = 1 \<or> inserters = 1")
  case True
  from build this pos show ?thesis by (rule single_inserter_matches_sequential)
next
  case False
  let ?ps = "map (sequential_pair L words) [0..<length words]"
  let ?c' = "\<lparr>chain = foldl ins Map.empty ?ps, prefixLen = L\<rparr>"
  have seq_build: "Build (NewChain L) words (Suc 0) 0 [] [] = Inr ?c'"
    by (simp add: Build_def NewChain_def Build_loop_scan sequential_pairs [OF pos])
  have "\<exists>sent. chain c = foldl ins Map.empty sent \<and> mset sent = mset ?ps"
  proof (cases "workers = 0")
    case True
    show ?thesis
    proof (cases "inserters = 0")
      case True
      with \<open>workers = 0\<close> build obtain seed m ps where
        seed: "slice_go words 0 L = Inr seed"
        and m: "Build_loop Map.empty (make_Prefix L) seed = Inr m"
        and ps: "collect (map (go_task L words) [L..<length words]) = Inr ps"
        and c: "chain c = complete [] m [] (map (\<lambda>kw. (Idle, [kw])) ps)"
        by (auto simp: Build_def BuildGo_def BuildGoLock_def NewChain_def split: sum.splits)
      from seed have le: "L \<le> length words" and seed_eq: "seed = take L words"
        by (auto simp: slice_go_def split: if_splits)
      from m have m_eq: "m = foldl ins Map.empty (map (sequential_pair L words) [0..<L])"
        by (simp add: Build_loop_scan seed_eq seeds_sequential [OF le])
      from ps have ps_eq: "ps = map (sequential_pair L words) [L..<length words]"
        by (simp add: go_tasks_sequential [OF le])
      have single: "concat (map (\<lambda>kw. [kw]) xs) = xs" for xs :: "pair list"
        by (induction xs) simp_all
      have "map (\<lambda>kw. (Idle, [kw])) ps = map (\<lambda>q. (Idle, q)) (map (\<lambda>kw. [kw]) ps)"
        by simp
      then have "chain c = foldl ins m ps"
        unfolding c complete_def
        by (simp only: run.simps prod.case finish_all_workers single)
      also have "\<dots> = foldl ins Map.empty (map (sequential_pair L words) [0..<L] @ ps)"
        by (simp add: m_eq)
      also have "map (sequential_pair L words) [0..<L] @ ps = ?ps"
        using le unfolding ps_eq
        by (metis le_add_diff_inverse map_append upt_add_eq_append zero_le)
      finally show ?thesis by blast
    next
      case False
      with \<open>workers = 0\<close> \<open>\<not> (workers = 1 \<or> inserters = 1)\<close> build obtain sent where
        ch: "go_channel (NewChain L) words sends = Inr sent"
        and c: "chain c = complete [] Map.empty sent (replicate inserters (Idle, []))"
        by (auto simp: Build_def BuildGo_def BuildGoChannels_def NewChain_def
            split: sum.splits if_splits)
      from go_channel_sequential [OF ch] have "mset sent = mset ?ps"
        by (simp add: NewChain_def)
      moreover have "chain c = foldl ins Map.empty sent"
        using False by (simp add: c complete_def finish_all_consumers)
      ultimately show ?thesis by blast
    qed
  next
    case False
    with \<open>\<not> (workers = 1 \<or> inserters = 1)\<close> have w: "0 < workers" "workers \<noteq> 1" by auto
    show ?thesis
    proof (cases "inserters = 0")
      case True
      with w build obtain qs where
        work: "tp_work L words workers = Inr qs"
        and c: "chain c = complete [] Map.empty [] (map (\<lambda>q. (Idle, q)) qs)"
        by (auto simp: Build_def BuildTP_def BuildTPLock_def NewChain_def split: sum.splits)
      have "chain c = foldl ins Map.empty (concat qs)"
        by (simp add: c complete_def finish_all_workers)
      with tp_work_sequential [OF pos w(1) work] show ?thesis by auto
    next
      case False
      with w \<open>\<not> (workers = 1 \<or> inserters = 1)\<close> build obtain qs where
        work: "tp_work L words workers = Inr qs"
        and c: "chain c = complete [] Map.empty (interleave sends qs)
                            (replicate inserters (Idle, []))"
        by (auto simp: Build_def BuildTP_def BuildTPChannels_def NewChain_def
            split: sum.splits if_splits)
      have "chain c = foldl ins Map.empty (interleave sends qs)"
        using False by (simp add: c complete_def finish_all_consumers)
      moreover have "mset (interleave sends qs) = mset ?ps"
        using tp_work_sequential [OF pos w(1) work] by (simp only: mset_interleave)
      ultimately show ?thesis by blast
    qed
  qed
  then obtain sent where
    sent: "chain c = foldl ins Map.empty sent" "mset sent = mset ?ps"
    by blast
  have "successors (chain c) key = successors (chain ?c') key" for key
    using successors_mset_cong [OF sent(2)] by (simp add: sent(1))
  then show ?thesis by (simp add: seq_build)
qed

section \<open>Number of insertions\<close>

lemmas table_defs = Insert_eq ins_def collection_def Load_def

lemma insertions_empty: "insertions Map.empty = 0"
  by (simp add: insertions_def)

text \<open>
  C2, as stated, puts the number of insertions at \<open>len(tokens) - prefixLen\<close>, or 0 for a
  corpus shorter than the prefix length. The sequential build inserts one successor for
  every token, the first ones under keys padded with empty strings: three tokens with
  prefix length 2 give 3 insertions, not 1, and one token gives 1, not 0.
\<close>

theorem sequential_build_inserts_every_token:
  "Build (NewChain 2) [''I'', ''am'', ''not''] 1 0 [] []
     = Inr \<lparr>chain = ['' '' \<mapsto> [''I''], '' I'' \<mapsto> [''am''], ''I am'' \<mapsto> [''not'']],
            prefixLen = 2\<rparr>
   \<and> insertions ['' '' \<mapsto> [''I''], '' I'' \<mapsto> [''am''], ''I am'' \<mapsto> [''not'']] = 3
   \<and> insertions ['' '' \<mapsto> [''I''], '' I'' \<mapsto> [''am''], ''I am'' \<mapsto> [''not'']]
       \<noteq> length [''I'', ''am'', ''not''] - 2
   \<and> Build (NewChain 2) [''I''] 1 0 [] [] = Inr \<lparr>chain = ['' '' \<mapsto> [''I'']], prefixLen = 2\<rparr>
   \<and> insertions ['' '' \<mapsto> [''I'']] = 1
   \<and> length [''I''] < (2::nat)
   \<and> insertions ['' '' \<mapsto> [''I'']] \<noteq> 0"
proof -
  have scan3: "scan_pairs (make_Prefix 2) [''I'', ''am'', ''not'']
      = Inr [('' '', ''I''), ('' I'', ''am''), (''I am'', ''not'')]"
    by code_simp
  have scan1: "scan_pairs (make_Prefix 2) [''I''] = Inr [('' '', ''I'')]"
    by code_simp
  have b3: "Build (NewChain 2) [''I'', ''am'', ''not''] 1 0 [] []
     = Inr \<lparr>chain = ['' '' \<mapsto> [''I''], '' I'' \<mapsto> [''am''], ''I am'' \<mapsto> [''not'']],
            prefixLen = 2\<rparr>"
    by (simp add: Build_def NewChain_def Build_loop_scan scan3 table_defs del: scan_pairs.simps)
  have b1: "Build (NewChain 2) [''I''] 1 0 [] [] = Inr \<lparr>chain = ['' '' \<mapsto> [''I'']], prefixLen = 2\<rparr>"
    by (simp add: Build_def NewChain_def Build_loop_scan scan1 table_defs del: scan_pairs.simps)
  have i3: "insertions ['' '' \<mapsto> [''I''], '' I'' \<mapsto> [''am''], ''I am'' \<mapsto> [''not'']] = 3"
    by (simp add: insertions_def)
  have i1: "insertions ['' '' \<mapsto> [''I'']] = 1"
    by (simp add: insertions_def)
  from b3 b1 i3 i1 show ?thesis by simp
qed

text \<open>
  C2, amended. For every token sequence, when the build returns, the total number of
  insertions over all keys of the table equals \<open>len(tokens)\<close>, for the strategies in
  which one goroutine makes all the inserts: the sequential one (\<open>workers = 1\<close>) and the
  one-inserter channel variants (\<open>inserters = 1\<close>), under every order of the sends.
\<close>

theorem Build_single_inserter_insertions:
  assumes build: "Build (NewChain L) words workers inserters sends steps = Inr c"
    and single: "workers = 1 \<or> inserters = 1"
  shows "insertions (chain c) = length words"
proof -
  have fold: "insertions (foldl ins Map.empty ps) = length ps" for ps
    using insertions_foldl [of Map.empty ps] by (simp add: insertions_empty)
  consider (seq) "workers = 1"
    | (go) "workers = 0" "inserters = 1"
    | (tp) "workers \<noteq> 1" "workers \<noteq> 0" "inserters = 1"
    using single by auto
  then show ?thesis
  proof cases
    case seq
    with build obtain ps where
      "scan_pairs (make_Prefix L) words = Inr ps" "chain c = foldl ins Map.empty ps"
      by (auto simp: Build_def NewChain_def Build_loop_scan split: sum.splits)
    then show ?thesis
      by (simp add: fold scan_pairs_length)
  next
    case go
    with build obtain sent where
      "go_channel (NewChain L) words sends = Inr sent" "chain c = foldl ins Map.empty sent"
      by (auto simp: Build_def BuildGo_def BuildGoChannel_def NewChain_def split: sum.splits)
    then show ?thesis
      by (simp add: fold go_channel_length)
  next
    case tp
    with build obtain qs where
      "tp_work L words workers = Inr qs" "chain c = foldl ins Map.empty (interleave sends qs)"
      by (auto simp: Build_def BuildTP_def BuildTPChannel_def NewChain_def split: sum.splits)
    with tp show ?thesis
      by (simp add: fold length_interleave tp_work_length)
  qed
qed

theorem Build_single_inserter_insertions_witness:
  "Build (NewChain 2) [''I'', ''am'', ''not'', ''a''] 2 1 [1, 0, 1, 0] []
     = Inr \<lparr>chain = foldl ins Map.empty
                      [(''I am'', ''not''), ('' '', ''I''), (''am not'', ''a''), ('' I'', ''am'')],
            prefixLen = 2\<rparr>
   \<and> ((2::nat) = 1 \<or> (1::nat) = 1)
   \<and> insertions (foldl ins Map.empty
         [(''I am'', ''not''), ('' '', ''I''), (''am not'', ''a''), ('' I'', ''am'')])
       = length [''I'', ''am'', ''not'', ''a'']"
proof -
  have work: "tp_work 2 [''I'', ''am'', ''not'', ''a''] 2
      = Inr [[('' '', ''I''), ('' I'', ''am'')], [(''I am'', ''not''), (''am not'', ''a'')]]"
    by code_simp
  have sent: "interleave [Suc 0, 0, Suc 0, 0]
       [[('' '', ''I''), ('' I'', ''am'')], [(''I am'', ''not''), (''am not'', ''a'')]]
      = [(''I am'', ''not''), ('' '', ''I''), (''am not'', ''a''), ('' I'', ''am'')]"
    by code_simp
  have build: "Build (NewChain 2) [''I'', ''am'', ''not'', ''a''] 2 1 [1, 0, 1, 0] []
     = Inr \<lparr>chain = foldl ins Map.empty
                      [(''I am'', ''not''), ('' '', ''I''), (''am not'', ''a''), ('' I'', ''am'')],
            prefixLen = 2\<rparr>"
    by (simp add: Build_def BuildTP_def BuildTPChannel_def NewChain_def work sent
        del: foldl.simps interleave.simps)
  from Build_single_inserter_insertions [OF build] build show ?thesis by simp
qed

section \<open>The corpus of the test\<close>

text \<open>
  The corpus of the repository's test, \<open>I am not a number! I am a free man!\<close> with
  prefix length 2: the sequential build gives the table the test expects, and each of
  the test's six concurrent configurations returns, with the same successor multisets
  when the inserting goroutines run one after the other.
\<close>

lemma test_corpus_sequential:
  "\<exists>c. Build (NewChain 2)
          [''I'', ''am'', ''not'', ''a'', ''number!'', ''I'', ''am'', ''a'', ''free'', ''man!'']
          1 0 [] [] = Inr c
     \<and> successors (chain c) '' '' = {#''I''#}
     \<and> successors (chain c) '' I'' = {#''am''#}
     \<and> successors (chain c) ''I am'' = {#''a'', ''not''#}
     \<and> successors (chain c) ''a free'' = {#''man!''#}
     \<and> successors (chain c) ''am a'' = {#''free''#}
     \<and> successors (chain c) ''am not'' = {#''a''#}
     \<and> successors (chain c) ''a number!'' = {#''I''#}
     \<and> successors (chain c) ''number! I'' = {#''am''#}
     \<and> successors (chain c) ''not a'' = {#''number!''#}
     \<and> insertions (chain c) = 10"
proof -
  let ?ws = "[''I'', ''am'', ''not'', ''a'', ''number!'', ''I'', ''am'', ''a'', ''free'', ''man!'']"
  let ?ps = "[('' '', ''I''), ('' I'', ''am''), (''I am'', ''not''), (''am not'', ''a''),
              (''not a'', ''number!''), (''a number!'', ''I''), (''number! I'', ''am''),
              (''I am'', ''a''), (''am a'', ''free''), (''a free'', ''man!'')]"
  have scan: "scan_pairs (make_Prefix 2) ?ws = Inr ?ps"
    by code_simp
  have build: "Build (NewChain 2) ?ws 1 0 [] []
                 = Inr \<lparr>chain = foldl ins Map.empty ?ps, prefixLen = 2\<rparr>"
    by (simp add: Build_def NewChain_def Build_loop_scan scan del: scan_pairs.simps foldl.simps)
  have succ: "successors (foldl ins Map.empty ?ps) key
                = mset (map snd (filter (\<lambda>kw. fst kw = key) ?ps))" for key
    by (simp only: successors_foldl) (simp add: successors_def collection_def Load_def)
  have count: "insertions (foldl ins Map.empty ?ps) = 10"
    using insertions_foldl [of Map.empty ?ps] by (simp add: insertions_empty)
  show ?thesis
    apply (rule exI [of _ "\<lparr>chain = foldl ins Map.empty ?ps, prefixLen = 2\<rparr>"])
    apply (intro conjI)
              apply (rule build)
             apply (simp_all add: succ count del: foldl.simps)
    done
qed

lemma test_configurations_return:
  "\<exists>c1 c2 c3 c4 c5 c6.
     Build (NewChain 2)
       [''I'', ''am'', ''not'', ''a'', ''number!'', ''I'', ''am'', ''a'', ''free'', ''man!'']
       0 0 sends steps = Inr c1
   \<and> Build (NewChain 2)
       [''I'', ''am'', ''not'', ''a'', ''number!'', ''I'', ''am'', ''a'', ''free'', ''man!'']
       0 1 sends steps = Inr c2
   \<and> Build (NewChain 2)
       [''I'', ''am'', ''not'', ''a'', ''number!'', ''I'', ''am'', ''a'', ''free'', ''man!'']
       0 4 sends steps = Inr c3
   \<and> Build (NewChain 2)
       [''I'', ''am'', ''not'', ''a'', ''number!'', ''I'', ''am'', ''a'', ''free'', ''man!'']
       4 0 sends steps = Inr c4
   \<and> Build (NewChain 2)
       [''I'', ''am'', ''not'', ''a'', ''number!'', ''I'', ''am'', ''a'', ''free'', ''man!'']
       4 1 sends steps = Inr c5
   \<and> Build (NewChain 2)
       [''I'', ''am'', ''not'', ''a'', ''number!'', ''I'', ''am'', ''a'', ''free'', ''man!'']
       4 4 sends steps = Inr c6"
proof -
  let ?ws = "[''I'', ''am'', ''not'', ''a'', ''number!'', ''I'', ''am'', ''a'', ''free'', ''man!'']"
  have seed: "slice_go ?ws 0 2 = Inr [''I'', ''am'']"
    by code_simp
  have seeds: "scan_pairs (make_Prefix 2) [''I'', ''am''] = Inr [('' '', ''I''), ('' I'', ''am'')]"
    by code_simp
  have tasks: "\<exists>ps. collect (map (go_task 2 ?ws) [2..<length ?ws]) = Inr ps"
    using go_tasks_sequential [of 2 ?ws] by simp
  have work: "\<exists>qs. tp_work 2 ?ws 4 = Inr qs"
    by (rule tp_work_returns) (simp_all add: perWorker_def)
  from tasks obtain ps where ps: "collect (map (go_task 2 ?ws) [2..<length ?ws]) = Inr ps"
    by blast
  from work obtain qs where qs: "tp_work 2 ?ws 4 = Inr qs"
    by blast
  have go: "go_channel (NewChain 2) ?ws sends
              = Inr ([('' '', ''I''), ('' I'', ''am'')] @ interleave sends (map (\<lambda>kw. [kw]) ps))"
    using ps
    by (simp add: go_channel_def NewChain_def seed seeds del: scan_pairs.simps)
  have "\<exists>c. BuildGoLock (NewChain 2) ?ws steps = Inr c"
    using ps
    by (simp add: BuildGoLock_def NewChain_def seed Build_loop_scan seeds del: scan_pairs.simps)
  moreover have "\<exists>c. BuildGoChannel (NewChain 2) ?ws sends = Inr c"
    by (simp add: BuildGoChannel_def go)
  moreover have "\<exists>c. BuildGoChannels (NewChain 2) ?ws 4 sends steps = Inr c"
    by (simp add: BuildGoChannels_def go)
  moreover have "\<exists>c. BuildTPLock (NewChain 2) ?ws 4 steps = Inr c"
    by (simp add: BuildTPLock_def NewChain_def qs)
  moreover have "\<exists>c. BuildTPChannel (NewChain 2) ?ws 4 sends = Inr c"
    by (simp add: BuildTPChannel_def NewChain_def qs)
  moreover have "\<exists>c. BuildTPChannels (NewChain 2) ?ws 4 4 sends steps = Inr c"
    by (simp add: BuildTPChannels_def NewChain_def qs)
  ultimately show ?thesis
    by (simp add: Build_def BuildGo_def BuildTP_def)
qed

section \<open>Build: behaviour at concrete inputs\<close>

text \<open>
  Two goroutines of \<^verbatim>\<open>BuildGoLock\<close> that insert under the same key: both load before
  either stores, and the later \<^verbatim>\<open>Delete\<close> removes what the earlier \<^verbatim>\<open>LoadOrStore\<close>
  stored. The token \<open>am\<close> after \<open>I\<close> is lost; the sequential build keeps it.
\<close>

lemma Insert_race_loses_token:
  "BuildGoLock (NewChain 1) [''I'', ''am'', ''I'', ''was''] [0, 2, 0, 0, 2, 2]
     = Inr \<lparr>chain = [[] \<mapsto> [''I''], ''am'' \<mapsto> [''I''], ''I'' \<mapsto> [''was'']], prefixLen = 1\<rparr>
   \<and> Build (NewChain 1) [''I'', ''am'', ''I'', ''was''] 1 0 [] []
     = Inr \<lparr>chain = [[] \<mapsto> [''I''], ''am'' \<mapsto> [''I''], ''I'' \<mapsto> [''am'', ''was'']], prefixLen = 1\<rparr>"
proof -
  let ?ws = "[''I'', ''am'', ''I'', ''was'']"
  have seed: "slice_go ?ws 0 (Suc 0) = Inr [''I'']"
    by code_simp
  have seeds: "scan_pairs (make_Prefix (Suc 0)) [''I''] = Inr [([], ''I'')]"
    by code_simp
  have tasks: "collect [go_task (Suc 0) ?ws (Suc 0), go_task (Suc 0) ?ws (Suc (Suc 0)),
                        go_task (Suc 0) ?ws (Suc (Suc (Suc 0)))]
      = Inr [(''I'', ''am''), (''am'', ''I''), (''I'', ''was'')]"
    by code_simp
  have scan: "scan_pairs (make_Prefix (Suc 0)) ?ws
      = Inr [([], ''I''), (''I'', ''am''), (''am'', ''I''), (''I'', ''was'')]"
    by code_simp
  have race: "BuildGoLock (NewChain 1) ?ws [0, 2, 0, 0, 2, 2]
     = Inr \<lparr>chain = [[] \<mapsto> [''I''], ''am'' \<mapsto> [''I''], ''I'' \<mapsto> [''was'']], prefixLen = 1\<rparr>"
    unfolding BuildGoLock_def NewChain_def
    apply (simp add: seed Build_loop_scan seeds tasks del: scan_pairs.simps)
    apply (simp add: complete_def table_defs Delete_def LoadOrStore_def append_word_def)
    apply (auto simp: fun_eq_iff)
    done
  have seq: "Build (NewChain 1) ?ws 1 0 [] []
     = Inr \<lparr>chain = [[] \<mapsto> [''I''], ''am'' \<mapsto> [''I''], ''I'' \<mapsto> [''am'', ''was'']], prefixLen = 1\<rparr>"
    by (simp add: Build_def NewChain_def Build_loop_scan scan table_defs del: scan_pairs.simps)
  from race seq show ?thesis by simp
qed

text \<open>
  The channel variants of \<^verbatim>\<open>BuildGo\<close> with a prefix of more than eight words: the calling
  goroutine fills the channel with the first eight pairs and blocks on the ninth send,
  with no other goroutine started.
\<close>

lemma go_channel_seeding_blocks:
  assumes "8 < L" "L \<le> length words"
  shows "BuildGoChannel (NewChain L) words sends = Inl AllGoroutinesAsleep"
    and "BuildGoChannels (NewChain L) words inserters sends steps = Inl AllGoroutinesAsleep"
proof -
  have seed: "slice_go words 0 L = Inr (take L words)"
    using assms(2) by (simp add: slice_go_def)
  have "go_channel (NewChain L) words sends = Inl AllGoroutinesAsleep"
    using assms(1)
    by (simp add: go_channel_def NewChain_def seed seeds_sequential [OF assms(2)])
  then show "BuildGoChannel (NewChain L) words sends = Inl AllGoroutinesAsleep"
    and "BuildGoChannels (NewChain L) words inserters sends steps = Inl AllGoroutinesAsleep"
    by (simp_all add: BuildGoChannel_def BuildGoChannels_def)
qed

text \<open>
  C1 says that every strategy produces a table whose per-key successor multisets are
  those of the sequential scan, for every token sequence and every prefix length. On
  the two words \<open>I am\<close> with prefix length 2 and two workers, under any schedule, the
  partitioned strategies panic (worker 1 starts at 1 and reads \<^verbatim>\<open>words[1+0-2]\<close>), while
  the sequential build returns the table with \<open>" " \<mapsto> [I]\<close> and \<open>" I" \<mapsto> [am]\<close>.
\<close>

theorem Build_partitioned_panics_on_two_words:
  "Build (NewChain 2) [''I'', ''am''] 2 0 sends steps = Inl IndexOutOfRange
   \<and> Build (NewChain 2) [''I'', ''am''] 2 1 sends steps = Inl IndexOutOfRange
   \<and> Build (NewChain 2) [''I'', ''am''] 2 4 sends steps = Inl IndexOutOfRange
   \<and> Build (NewChain 2) [''I'', ''am''] 1 0 sends steps
       = Inr \<lparr>chain = ['' '' \<mapsto> [''I''], '' I'' \<mapsto> [''am'']], prefixLen = 2\<rparr>"
proof -
  have work: "tp_work 2 [''I'', ''am''] 2 = Inl IndexOutOfRange"
    by code_simp
  have scan: "scan_pairs (make_Prefix 2) [''I'', ''am''] = Inr [('' '', ''I''), ('' I'', ''am'')]"
    by code_simp
  show ?thesis
    by (simp add: Build_def BuildTP_def BuildTPLock_def BuildTPChannel_def BuildTPChannels_def
        NewChain_def work Build_loop_scan scan table_defs del: scan_pairs.simps)
qed

text \<open>
  C3 says that a token sequence shorter than the prefix length is handled by every
  strategy without crashing. On the single word \<open>I\<close> with prefix length 2 the goroutine
  strategies panic on \<^verbatim>\<open>words[:c.prefixLen]\<close> and the partitioned strategies panic on
  the context read, under any schedule; the sequential build returns the partially
  seeded table.
\<close>

theorem Build_short_corpus_panics:
  "length [''I''] < (2::nat)
   \<and> Build (NewChain 2) [''I''] 0 0 sends steps = Inl SliceBoundsOutOfRange
   \<and> Build (NewChain 2) [''I''] 0 1 sends steps = Inl SliceBoundsOutOfRange
   \<and> Build (NewChain 2) [''I''] 0 4 sends steps = Inl SliceBoundsOutOfRange
   \<and> Build (NewChain 2) [''I''] 4 0 sends steps = Inl IndexOutOfRange
   \<and> Build (NewChain 2) [''I''] 4 1 sends steps = Inl IndexOutOfRange
   \<and> Build (NewChain 2) [''I''] 4 4 sends steps = Inl IndexOutOfRange
   \<and> Build (NewChain 2) [''I''] 1 0 sends steps
       = Inr \<lparr>chain = ['' '' \<mapsto> [''I'']], prefixLen = 2\<rparr>"
proof -
  have seed: "slice_go [''I''] 0 2 = Inl SliceBoundsOutOfRange"
    by code_simp
  have work: "tp_work 2 [''I''] 4 = Inl IndexOutOfRange"
    by code_simp
  have scan: "scan_pairs (make_Prefix 2) [''I''] = Inr [('' '', ''I'')]"
    by code_simp
  show ?thesis
    by (simp add: Build_def BuildGo_def BuildGoLock_def BuildGoChannel_def BuildGoChannels_def
        go_channel_def BuildTP_def BuildTPLock_def BuildTPChannel_def BuildTPChannels_def
        NewChain_def seed work Build_loop_scan scan table_defs del: scan_pairs.simps)
qed

text \<open>
  C4 says that the partitioned strategies never read the token sequence out of range
  when they reconstruct the preceding prefix. With three words, prefix length 2 and
  three workers, worker 1 starts at 1 and its first context read is at index
  \<open>1 + 0 - 2\<close>: the read panics, and so does each of the three partitioned builds.
\<close>

theorem context_read_out_of_range:
  "seg_start 3 3 1 = 1
   \<and> index_go [''I'', ''am'', ''not''] (int (seg_start 3 3 1) + int 0 - int 2) = Inl IndexOutOfRange
   \<and> init_Prefix 2 [''I'', ''am'', ''not''] (seg_start 3 3 1) = Inl IndexOutOfRange
   \<and> BuildTPLock (NewChain 2) [''I'', ''am'', ''not''] 3 steps = Inl IndexOutOfRange
   \<and> BuildTPChannel (NewChain 2) [''I'', ''am'', ''not''] 3 sends = Inl IndexOutOfRange
   \<and> BuildTPChannels (NewChain 2) [''I'', ''am'', ''not''] 3 2 sends steps = Inl IndexOutOfRange"
proof -
  have parts: "seg_start 3 3 1 = 1
     \<and> index_go [''I'', ''am'', ''not''] (int (seg_start 3 3 1) + int 0 - int 2) = Inl IndexOutOfRange
     \<and> init_Prefix 2 [''I'', ''am'', ''not''] (seg_start 3 3 1) = Inl IndexOutOfRange"
    by code_simp
  have work: "tp_work 2 [''I'', ''am'', ''not''] 3 = Inl IndexOutOfRange"
    by code_simp
  have builds: "BuildTPLock (NewChain 2) [''I'', ''am'', ''not''] 3 steps = Inl IndexOutOfRange
   \<and> BuildTPChannel (NewChain 2) [''I'', ''am'', ''not''] 3 sends = Inl IndexOutOfRange
   \<and> BuildTPChannels (NewChain 2) [''I'', ''am'', ''not''] 3 2 sends steps = Inl IndexOutOfRange"
    by (simp add: BuildTPLock_def BuildTPChannel_def BuildTPChannels_def NewChain_def work)
  from parts builds show ?thesis by blast
qed

text \<open>
  A worker whose start has \<open>prefixLen\<close> words before it returns the pairs of the
  sequential scan over its segment; its first key is the sequential key at its start.
\<close>

lemma worker_with_context_first_key:
  assumes "0 < L" "L \<le> start" "start < stop" "stop \<le> length words"
  shows "tp_worker L words start stop
           = Inr (sequential_pair L words start
                  # map (sequential_pair L words) [Suc start..<stop])"
proof -
  have init: "init_Prefix L words start = Inr (take L (drop (start - L) words))"
    by (rule init_Prefix_ok) (use assms in simp_all)
  have ne: "take L (drop (start - L) words) \<noteq> []"
    using assms by simp
  from scan_pairs_closed [OF ne] obtain ps where
    "scan_pairs (take L (drop (start - L) words)) (take (stop - start) (drop start words))
       = Inr ps"
    by blast
  then have work: "tp_worker L words start stop = Inr ps"
    using assms by (simp add: tp_worker_def init slice_go_def)
  from tp_worker_sequential [OF assms(1) work] work assms(3)
  show ?thesis by (simp add: upt_conv_Cons)
qed

text \<open>
  C5 says that the first key a worker \<open>k > 0\<close> inserts, when its segment starts within
  the token sequence, is the key of the sequential scan at that offset. With four
  words, prefix length 2 and four workers, worker 1 starts at offset 1, within the
  sequence, and panics before it inserts anything; the sequential scan has the key
  \<open>" I"\<close> at offset 1.
\<close>

theorem worker_first_key_missing:
  "seg_start 4 4 1 = 1
   \<and> seg_start 4 4 1 < length [''I'', ''am'', ''not'', ''a'']
   \<and> tp_worker 2 [''I'', ''am'', ''not'', ''a''] (seg_start 4 4 1) (seg_end 4 4 1)
       = Inl IndexOutOfRange
   \<and> scan_pairs (make_Prefix 2) [''I'', ''am'', ''not'', ''a'']
       = Inr [('' '', ''I''), ('' I'', ''am''), (''I am'', ''not''), (''am not'', ''a'')]"
  by code_simp

text \<open>
  C6 says that the partitioned strategies divide \<open>n\<close> tokens among \<open>W\<close> workers into
  contiguous segments of length \<open>ceil(n/W)\<close>, the last one truncated. With five tokens
  and four workers the segment length is 2 and worker 3 gets start 6 and end 5: not a
  segment of the sequence, and worker 2, not the last, has one token. The slice
  \<^verbatim>\<open>words[6:5]\<close> is out of range, and with prefix length 2 the build panics.
\<close>

theorem partition_overshoots:
  "perWorker 5 4 = 2
   \<and> map (\<lambda>i. (seg_start 5 4 i, seg_end 5 4 i)) [0..<4] = [(0, 2), (2, 4), (4, 5), (6, 5)]
   \<and> slice_go [''I'', ''am'', ''not'', ''a'', ''number!''] (seg_start 5 4 3) (seg_end 5 4 3)
       = Inl SliceBoundsOutOfRange
   \<and> tp_work 2 [''I'', ''am'', ''not'', ''a'', ''number!''] 4 = Inl IndexOutOfRange"
  by code_simp

end
